theory Spec2Isabelle
  imports Main "HOL-Library.Word" "HOL-Library.Stream" "HOL-Library.Multiset"
begin

section \<open>The password generator of \<open>script.js\<close>\<close>

text \<open>
  The four character classes are the string constants at the top of the script.
  All characters are ASCII, so a JavaScript string is modelled as a \<open>string\<close>.
\<close>

definition UPPER :: string where
  "UPPER = ''ABCDEFGHIJKLMNOPQRSTUVWXYZ''"

definition LOWER :: string where
  "LOWER = ''abcdefghijklmnopqrstuvwxyz''"

definition NUMBERS :: string where
  "NUMBERS = ''0123456789''"

definition SYMBOLS :: string where
  "SYMBOLS = ''~`!@#$%^&*()_-+={}[]|:;<>.?/,''"

subsection \<open>The sources of randomness\<close>

text \<open>
  \<open>getSecureRandomInt\<close> reads one of two ambient sources. When \<open>window.crypto\<close> and
  its \<open>getRandomValues\<close> exist, every call of \<open>getRandomValues\<close> on a one-element
  \<open>Uint32Array\<close> yields the next unsigned 32-bit word of an infinite stream. Otherwise
  every call of \<open>Math.random()\<close> yields the next double of an infinite stream of doubles
  in \<open>[0, 1)\<close>.

  A double in \<open>[0, 1)\<close> is a pair \<open>(m, e)\<close> standing for \<open>m / 2 ^ (53 + e)\<close>, with a
  53-bit significand \<open>m\<close>: every such double (zero, subnormal or normal) has this form
  with \<open>e \<le> 1021\<close>, and the type admits no value outside \<open>[0, 1)\<close>.
\<close>

type_synonym double01 = "53 word \<times> nat"

datatype rng =
  Crypto "32 word stream"
| MathRandom "double01 stream"

text \<open>
  The environment of a run: the source of randomness, and a log of the arguments of the
  calls of \<open>getSecureRandomInt\<close> made so far, in call order. The log is ghost state: no
  function reads it.
\<close>

record env =
  source :: rng
  call_log :: "int list"

subsection \<open>Double arithmetic of the fallback path\<close>

text \<open>The number of binary digits of a natural number.\<close>

fun bitlen :: "nat \<Rightarrow> nat" where
  "bitlen n = (if n = 0 then 0 else Suc (bitlen (n div 2)))"

declare bitlen.simps [simp del]

text \<open>
  IEEE 754 multiplication rounds the exact product to 53 significant bits, to nearest,
  ties to even. \<open>round53 p\<close> rounds the natural number \<open>p\<close> that way: with
  \<open>k = bitlen p - 53\<close> excess bits, the low \<open>k\<close> bits are dropped and the rest is
  incremented when the dropped part exceeds half a unit, or equals it and the rest is odd.
  A number of at most 53 bits is returned unchanged.
\<close>

definition round53 :: "nat \<Rightarrow> nat" where
  "round53 p =
     (let k = bitlen p - 53;
          q = p div 2 ^ k;
          r = p mod 2 ^ k
      in (if 2 ^ k < 2 * r \<or> (2 ^ k = 2 * r \<and> odd q) then q + 1 else q) * 2 ^ k)"

text \<open>
  \<open>Math.floor(Math.random() * max)\<close> for the double \<open>(m, e)\<close> and a positive integer
  \<open>max\<close>: the exact product is \<open>m * max / 2 ^ (53 + e)\<close>; its numerator is rounded
  to 53 significant bits and the floor of the quotient is taken. (A product below the
  normal range has a numerator of at most 53 bits and is exact.)
\<close>

definition floor_random_times :: "double01 \<Rightarrow> int \<Rightarrow> int" where
  "floor_random_times d mx =
     int (round53 (unat (fst d) * nat mx) div 2 ^ (53 + snd d))"

subsection \<open>\<open>getSecureRandomInt\<close>\<close>

definition uint32Max :: int where
  "uint32Max = 0xffffffff"

text \<open>
  The parameter \<open>max\<close> of the script, an integer-valued JavaScript number, is written
  \<open>mx\<close>. For integers \<open>1 \<le> mx\<close> the double quotient \<open>uint32Max / max\<close> lies within
  less than \<open>1 / max\<close> of the exact one, so \<open>Math.floor(uint32Max / max)\<close> is the integer
  quotient, and the product with \<open>max\<close> is exact.
\<close>

definition bound :: "int \<Rightarrow> int" where
  "bound mx = (uint32Max div mx) * mx"

text \<open>
  The \<open>while (true)\<close> loop of the cryptographic path: draw a word, return
  \<open>rand[0] % max\<close> when \<open>rand[0] < bound\<close>, draw again otherwise. The loop has no
  iteration cap, so a run that never meets an accepted word is the value \<open>None\<close>.
\<close>

partial_function (option) rejection_loop ::
  "int \<Rightarrow> int \<Rightarrow> 32 word stream \<Rightarrow> (int \<times> 32 word stream) option" where
  "rejection_loop b mx s =
     (if uint (shd s) < b then Some (uint (shd s) mod mx, stl s)
      else rejection_loop b mx (stl s))"

text \<open>
  Every call is appended to the log first. \<open>getRandomValues\<close> is taken to return; a
  source that raises is outside the model.
\<close>

definition getSecureRandomInt :: "int \<Rightarrow> env \<Rightarrow> (int \<times> env) option" where
  "getSecureRandomInt mx env0 =
     (let env = env0\<lparr>call_log := call_log env0 @ [mx]\<rparr> in
      if mx \<le> 0 then Some (0, env)
      else case source env of
        Crypto s \<Rightarrow>
          (case rejection_loop (bound mx) mx s of
             None \<Rightarrow> None
           | Some (v, s') \<Rightarrow> Some (v, env\<lparr>source := Crypto s'\<rparr>))
      | MathRandom s \<Rightarrow>
          Some (floor_random_times (shd s) mx, env\<lparr>source := MathRandom (stl s)\<rparr>))"

subsection \<open>\<open>pickRandomChar\<close>\<close>

text \<open>\<open>str.charAt(k)\<close> is the one-character string at index \<open>k\<close>, or the empty string
  when \<open>k\<close> is out of range.\<close>

definition charAt :: "string \<Rightarrow> int \<Rightarrow> string" where
  "charAt str k = (if 0 \<le> k \<and> k < int (length str) then [str ! nat k] else [])"

definition pickRandomChar :: "string \<Rightarrow> env \<Rightarrow> (string \<times> env) option" where
  "pickRandomChar str env =
     (case getSecureRandomInt (int (length str)) env of
        None \<Rightarrow> None
      | Some (k, env') \<Rightarrow> Some (charAt str k, env'))"

subsection \<open>\<open>shuffleArray\<close>\<close>

text \<open>
  The destructuring assignment \<open>[array[i], array[j]] = [array[j], array[i]]\<close> reads both
  elements first, then writes \<open>array[i]\<close>, then \<open>array[j]\<close>. In the loop below both
  indices are within the array (\<open>0 \<le> j \<le> i < array.length\<close>, by the range of
  \<open>getSecureRandomInt\<close> proved further down), so no read or write is out of range.
\<close>

definition swap_assign :: "int \<Rightarrow> int \<Rightarrow> 'a list \<Rightarrow> 'a list" where
  "swap_assign i j array =
     (let t0 = array ! nat j; t1 = array ! nat i
      in (array[nat i := t0])[nat j := t1])"

function shuffle_loop :: "int \<Rightarrow> 'a list \<Rightarrow> env \<Rightarrow> ('a list \<times> env) option" where
  "shuffle_loop i array env =
     (if i > 0 then
        (case getSecureRandomInt (i + 1) env of
           None \<Rightarrow> None
         | Some (j, env') \<Rightarrow> shuffle_loop (i - 1) (swap_assign i j array) env')
      else Some (array, env))"
  by pat_completeness auto
termination
  by (relation "measure (\<lambda>(i, array, env). nat i)") auto

declare shuffle_loop.simps [simp del]

definition shuffleArray :: "'a list \<Rightarrow> env \<Rightarrow> ('a list \<times> env) option" where
  "shuffleArray array env = shuffle_loop (int (length array) - 1) array env"

subsection \<open>\<open>generatePassword\<close>\<close>

record options =
  upper :: bool
  lower :: bool
  numbers :: bool
  symbols :: bool

datatype error = LengthTooShort

definition selected_pools :: "options \<Rightarrow> string list" where
  "selected_pools opts =
     (if upper opts then [UPPER] else []) @
     (if lower opts then [LOWER] else []) @
     (if numbers opts then [NUMBERS] else []) @
     (if symbols opts then [SYMBOLS] else [])"

text \<open>\<open>pools.forEach(pool => result.push(pickRandomChar(pool)))\<close>\<close>

fun forEach_pick :: "string list \<Rightarrow> string list \<Rightarrow> env \<Rightarrow> (string list \<times> env) option" where
  "forEach_pick [] result env = Some (result, env)"
| "forEach_pick (pool # pools) result env =
     (case pickRandomChar pool env of
        None \<Rightarrow> None
      | Some (c, env') \<Rightarrow> forEach_pick pools (result @ [c]) env')"

text \<open>\<open>for (let i = result.length; i < length; i++) result.push(pickRandomChar(combined))\<close>\<close>

function fill_loop ::
  "int \<Rightarrow> int \<Rightarrow> string \<Rightarrow> string list \<Rightarrow> env \<Rightarrow> (string list \<times> env) option" where
  "fill_loop i len combined result env =
     (if i < len then
        (case pickRandomChar combined env of
           None \<Rightarrow> None
         | Some (c, env') \<Rightarrow> fill_loop (i + 1) len combined (result @ [c]) env')
      else Some (result, env))"
  by pat_completeness auto
termination
  by (relation "measure (\<lambda>(i, len, combined, result, env). nat (len - i))") auto

declare fill_loop.simps [simp del]

text \<open>
  A run of \<open>generatePassword\<close> either returns a string (\<open>Inr\<close>), throws (\<open>Inl\<close>), or
  never returns (\<open>None\<close>). The environment after the run is part of the result.
  \<open>length\<close> is an integer-valued JavaScript number; arrays and strings are lists, and the
  engine's limits on their size are outside the model.
\<close>

definition generatePassword ::
  "int \<Rightarrow> options \<Rightarrow> env \<Rightarrow> ((error + string) \<times> env) option" where
  "generatePassword len opts env =
     (let pools = selected_pools opts in
      if length pools = 0 then Some (Inr [], env)
      else if len < int (length pools) then Some (Inl LengthTooShort, env)
      else
        (case forEach_pick pools [] env of
           None \<Rightarrow> None
         | Some (result, env1) \<Rightarrow>
             (let combined = concat pools in
              case fill_loop (int (length result)) len combined result env1 of
                None \<Rightarrow> None
              | Some (result', env2) \<Rightarrow>
                  (case shuffleArray result' env2 of
                     None \<Rightarrow> None
                   | Some (shuffled, env3) \<Rightarrow> Some (Inr (concat shuffled), env3)))))"

subsection \<open>Requests, sources that keep accepting, and replay\<close>

text \<open>A request is valid when a class is selected and \<open>length\<close> has room for one
  character of each selected class.\<close>

definition valid_request :: "int \<Rightarrow> options \<Rightarrow> bool" where
  "valid_request len opts =
     (selected_pools opts \<noteq> [] \<and> int (length (selected_pools opts)) \<le> len)"

text \<open>
  The rejection loop returns only when it meets a word below \<open>bound mx\<close>.
  \<open>keeps_accepting M env\<close> says that the loop can never get stuck for an argument up to
  \<open>M\<close>: on the cryptographic path, every suffix of the word stream holds a word below
  \<open>bound mx\<close>, for each \<open>0 < mx \<le> M\<close>. The fallback path has no loop.
\<close>

definition keeps_accepting :: "int \<Rightarrow> env \<Rightarrow> bool" where
  "keeps_accepting M env =
     (case source env of
        MathRandom s \<Rightarrow> True
      | Crypto s \<Rightarrow> (\<forall>mx. 0 < mx \<and> mx \<le> M \<longrightarrow> (\<forall>n. \<exists>k\<ge>n. uint (s !! k) < bound mx)))"

text \<open>The first \<open>n\<close> values a source yields, and the source after \<open>n\<close> draws.\<close>

fun drawn :: "nat \<Rightarrow> rng \<Rightarrow> 32 word list + double01 list" where
  "drawn n (Crypto s) = Inl (stake n s)"
| "drawn n (MathRandom s) = Inr (stake n s)"

fun rest :: "nat \<Rightarrow> rng \<Rightarrow> rng" where
  "rest n (Crypto s) = Crypto (sdrop n s)"
| "rest n (MathRandom s) = MathRandom (sdrop n s)"

text \<open>
  A computation is replayable when each of its returning runs has drawn some finite
  number \<open>n\<close> of values, and every run on a source that starts with the same \<open>n\<close>
  values returns the same result after the same \<open>n\<close> draws.
\<close>

definition replayable :: "(env \<Rightarrow> ('a \<times> env) option) \<Rightarrow> bool" where
  "replayable f =
     (\<forall>e r e'. f e = Some (r, e') \<longrightarrow>
        (\<exists>n. source e' = rest n (source e) \<and>
           (\<forall>e2. drawn n (source e2) = drawn n (source e) \<longrightarrow>
              (\<exists>e2'. f e2 = Some (r, e2') \<and> source e2' = rest n (source e2)))))"

subsection \<open>Reference definitions that follow the specification\<close>

text \<open>
  The specification's threshold: \<open>floor(UINT32_MAX_PLUS_ONE / max) * max\<close>, over a word
  space of size \<open>2 ^ 32\<close>.
\<close>

definition spec_bound :: "int \<Rightarrow> int" where
  "spec_bound mx = (2 ^ 32 div mx) * mx"

text \<open>
  The specification's shuffle: Fisher--Yates, iterating from the last index down to
  index 1, at each step \<open>i\<close> drawing \<open>j = nextBoundedInt(i + 1)\<close> and swapping positions
  \<open>i\<close> and \<open>j\<close>. Swapping two positions is reading the list through the transposition of
  the two indices; \<open>nextBoundedInt\<close> is \<open>getSecureRandomInt\<close>.
\<close>

definition spec_swap_positions :: "nat \<Rightarrow> nat \<Rightarrow> 'a list \<Rightarrow> 'a list" where
  "spec_swap_positions i j xs =
     map (\<lambda>k. xs ! (if k = i then j else if k = j then i else k)) [0..<length xs]"

definition spec_fisher_yates_step ::
  "nat \<Rightarrow> ('a list \<times> env) option \<Rightarrow> ('a list \<times> env) option" where
  "spec_fisher_yates_step i st =
     (case st of
        None \<Rightarrow> None
      | Some (xs, env) \<Rightarrow>
          (case getSecureRandomInt (int i + 1) env of
             None \<Rightarrow> None
           | Some (j, env') \<Rightarrow> Some (spec_swap_positions i (nat j) xs, env')))"

definition spec_fisher_yates :: "'a list \<Rightarrow> env \<Rightarrow> ('a list \<times> env) option" where
  "spec_fisher_yates xs env = fold spec_fisher_yates_step (rev [1..<length xs]) (Some (xs, env))"

section \<open>Properties\<close>

subsection \<open>The rejection loop\<close>

lemma rejection_loop_accept:
  "uint (shd s) < b \<Longrightarrow> rejection_loop b mx s = Some (uint (shd s) mod mx, stl s)"
  by (subst rejection_loop.simps) simp

lemma rejection_loop_reject:
  "\<not> uint (shd s) < b \<Longrightarrow> rejection_loop b mx s = rejection_loop b mx (stl s)"
  by (subst rejection_loop.simps) simp

lemma rejection_loop_SomeD:
  assumes "rejection_loop b mx s = Some r"
  shows "\<exists>n. uint (s !! n) < b \<and> (\<forall>k<n. \<not> uint (s !! k) < b)
             \<and> r = (uint (s !! n) mod mx, sdrop (Suc n) s)"
proof (rule rejection_loop.raw_induct [OF _ assms], goal_cases)
  case (1 rl b mx s r)
  show ?case
  proof (cases "uint (shd s) < b")
    case True
    with 1(2) have "r = (uint (s !! 0) mod mx, sdrop (Suc 0) s)" by simp
    with True show ?thesis by (intro exI [of _ 0]) simp
  next
    case False
    with 1(2) have "rl b mx (stl s) = Some r" by simp
    from 1(1) [OF this] obtain n where n: "uint (stl s !! n) < b"
      "\<forall>k<n. \<not> uint (stl s !! k) < b" "r = (uint (stl s !! n) mod mx, sdrop (Suc n) (stl s))"
      by blast
    have "\<forall>k<Suc n. \<not> uint (s !! k) < b"
    proof (intro allI impI)
      fix k assume "k < Suc n"
      then show "\<not> uint (s !! k) < b" using False n(2) by (cases k) auto
    qed
    with n(1,3) show ?thesis by (intro exI [of _ "Suc n"]) simp
  qed
qed

lemma rejection_loop_first:
  "uint (s !! n) < b \<Longrightarrow> \<forall>k<n. \<not> uint (s !! k) < b \<Longrightarrow>
   rejection_loop b mx s = Some (uint (s !! n) mod mx, sdrop (Suc n) s)"
proof (induction n arbitrary: s)
  case 0
  then show ?case by (simp add: rejection_loop_accept)
next
  case (Suc n)
  from Suc.prems(2) have "\<not> uint (shd s) < b" by (metis snth.simps(1) zero_less_Suc)
  then have "rejection_loop b mx s = rejection_loop b mx (stl s)"
    by (rule rejection_loop_reject)
  moreover have "rejection_loop b mx (stl s) = Some (uint (stl s !! n) mod mx, sdrop (Suc n) (stl s))"
    using Suc.prems by (intro Suc.IH) (auto simp: less_Suc_eq_0_disj dest: spec [of _ "Suc _"])
  ultimately show ?case by simp
qed

lemma rejection_loop_returns:
  assumes "uint (s !! n) < b"
  shows "\<exists>r. rejection_loop b mx s = Some r"
proof -
  define m where "m = (LEAST n. uint (s !! n) < b)"
  have "uint (s !! m) < b" unfolding m_def using assms by (rule LeastI)
  moreover have "\<forall>k<m. \<not> uint (s !! k) < b" unfolding m_def using not_less_Least by blast
  ultimately show ?thesis using rejection_loop_first by blast
qed

lemma rejection_loop_None:
  "(\<And>n. \<not> uint (s !! n) < b) \<Longrightarrow> rejection_loop b mx s = None"
  using rejection_loop_SomeD [of b mx s] by (cases "rejection_loop b mx s") auto

subsection \<open>The fallback draw stays below its argument\<close>

lemma bitlen_le: "p < 2 ^ j \<Longrightarrow> bitlen p \<le> j"
proof (induction j arbitrary: p)
  case 0
  then show ?case by (simp add: bitlen.simps)
next
  case (Suc j)
  show ?case
  proof (cases "p = 0")
    case True
    then show ?thesis by (simp add: bitlen.simps)
  next
    case False
    from Suc.prems have "p div 2 < 2 ^ j" by simp
    then have "bitlen (p div 2) \<le> j" by (rule Suc.IH)
    with False show ?thesis by (subst bitlen.simps) simp
  qed
qed

lemma round53_less:
  assumes m: "m < 2 ^ 53" and n: "0 < n"
  shows "round53 (m * n) < n * 2 ^ 53"
proof -
  define p where "p = m * n"
  define k where "k = bitlen p - 53"
  define q where "q = p div 2 ^ k"
  define r where "r = p mod 2 ^ k"
  have p_eq: "p = q * 2 ^ k + r" unfolding q_def r_def by (rule div_mult_mod_eq [symmetric])
  have r_less: "r < 2 ^ k" by (simp add: r_def)
  have gap: "p + n \<le> n * 2 ^ 53"
  proof -
    from m have "m + 1 \<le> 2 ^ 53" by simp
    then have "(m + 1) * n \<le> 2 ^ 53 * n" by (rule mult_le_mono1)
    then show ?thesis by (simp add: p_def algebra_simps)
  qed
  have r53: "round53 p = (if 2 ^ k < 2 * r \<or> (2 ^ k = 2 * r \<and> odd q) then q + 1 else q) * 2 ^ k"
    by (simp add: round53_def Let_def k_def q_def r_def)
  show ?thesis
  proof (cases "2 ^ k < 2 * r \<or> (2 ^ k = 2 * r \<and> odd q)")
    case False
    with r53 have "round53 p = q * 2 ^ k" by simp
    also have "\<dots> \<le> p" by (simp add: p_eq)
    also have "p < n * 2 ^ 53" using gap n by simp
    finally show ?thesis by (simp add: p_def)
  next
    case True
    then have half: "2 ^ k \<le> 2 * r" by auto
    with r_less have kpos: "0 < k" by (cases k) auto
    then obtain k' where k': "k = Suc k'" by (cases k) auto
    have n_big: "2 ^ k' < n"
    proof (rule ccontr)
      assume "\<not> 2 ^ k' < n"
      then have "n \<le> 2 ^ k'" by simp
      then have "m * n \<le> m * 2 ^ k'" by (rule mult_le_mono2)
      also have "\<dots> < 2 ^ 53 * 2 ^ k'" using m by simp
      finally have "p < 2 ^ (53 + k')" by (simp add: p_def power_add)
      then have "bitlen p \<le> 53 + k'" by (rule bitlen_le)
      with k' show False by (simp add: k_def)
    qed
    from True r53 have "round53 p = (q + 1) * 2 ^ k" by simp
    also have "\<dots> = q * 2 ^ k + 2 ^ k" by (simp add: algebra_simps)
    also have "\<dots> \<le> p + 2 ^ k'" using half by (simp add: p_eq k')
    also have "\<dots> < p + n" using n_big by simp
    also have "\<dots> \<le> n * 2 ^ 53" by (rule gap)
    finally show ?thesis by (simp add: p_def)
  qed
qed

lemma floor_random_times_range:
  assumes "0 < mx"
  shows "0 \<le> floor_random_times d mx \<and> floor_random_times d mx < mx"
proof -
  obtain m e where d: "d = (m, e)" by (cases d)
  define n where "n = nat mx"
  have n: "0 < n" and mx: "mx = int n" using assms by (simp_all add: n_def)
  have "unat m < 2 ^ 53" using unsigned_less [of m, where ?'a = nat] by simp
  then have "round53 (unat m * n) < n * 2 ^ 53" using n by (rule round53_less)
  then have lt: "round53 (unat m * n) div 2 ^ 53 < n"
    by (simp add: less_mult_imp_div_less)
  have pw: "(2::nat) ^ 53 \<le> 2 ^ (53 + e)"
    by (rule power_increasing) simp_all
  have "round53 (unat m * n) div 2 ^ (53 + e) \<le> round53 (unat m * n) div 2 ^ 53"
    by (rule div_le_mono2 [OF _ pw]) simp
  then have "round53 (unat m * n) div 2 ^ (53 + e) < n" using lt by (rule le_less_trans)
  then show ?thesis by (simp add: floor_random_times_def d mx)
qed

subsection \<open>\<open>getSecureRandomInt\<close>\<close>

lemma keeps_acceptingD:
  "keeps_accepting M env \<Longrightarrow> source env = Crypto s \<Longrightarrow> 0 < mx \<Longrightarrow> mx \<le> M \<Longrightarrow>
   \<exists>k\<ge>n. uint (s !! k) < bound mx"
  by (simp add: keeps_accepting_def)

lemma getSecureRandomInt_nonpos:
  "mx \<le> 0 \<Longrightarrow> getSecureRandomInt mx env = Some (0, env\<lparr>call_log := call_log env @ [mx]\<rparr>)"
  by (simp add: getSecureRandomInt_def)

lemma getSecureRandomInt_log:
  "getSecureRandomInt mx env = Some (v, env') \<Longrightarrow> call_log env' = call_log env @ [mx]"
  by (auto simp: getSecureRandomInt_def Let_def split: if_splits rng.splits option.splits)

lemma getSecureRandomInt_range:
  assumes "getSecureRandomInt mx env = Some (v, env')" and "0 < mx"
  shows "0 \<le> v \<and> v < mx"
proof (cases "source env")
  case (Crypto s)
  with assms obtain s' where "rejection_loop (bound mx) mx s = Some (v, s')"
    by (auto simp: getSecureRandomInt_def Let_def split: option.splits)
  then obtain n where "v = uint (s !! n) mod mx" by (auto dest: rejection_loop_SomeD)
  with assms(2) show ?thesis by simp
next
  case (MathRandom s)
  with assms have "v = floor_random_times (shd s) mx"
    by (auto simp: getSecureRandomInt_def Let_def)
  with assms(2) show ?thesis using floor_random_times_range by simp
qed

lemma getSecureRandomInt_keeps:
  assumes "getSecureRandomInt mx env = Some (v, env')" and "keeps_accepting M env"
  shows "keeps_accepting M env'"
proof (cases "source env")
  case (MathRandom s)
  with assms(1) show ?thesis
    by (auto simp: getSecureRandomInt_def Let_def keeps_accepting_def split: if_splits)
next
  case (Crypto s)
  show ?thesis
  proof (cases "mx \<le> 0")
    case True
    with assms show ?thesis by (auto simp: getSecureRandomInt_def Let_def keeps_accepting_def)
  next
    case False
    with Crypto assms(1) obtain s' where s': "rejection_loop (bound mx) mx s = Some (v, s')"
      and env': "env' = env\<lparr>call_log := call_log env @ [mx], source := Crypto s'\<rparr>"
      by (auto simp: getSecureRandomInt_def Let_def split: option.splits)
    from s' obtain d where d: "s' = sdrop d s" by (auto dest: rejection_loop_SomeD)
    have "\<exists>k\<ge>n. uint (s' !! k) < bound y" if "0 < y" "y \<le> M" for y n
    proof -
      from keeps_acceptingD [OF assms(2) Crypto that, of "d + n"]
      obtain k where "k \<ge> d + n" "uint (s !! k) < bound y" by blast
      then have "k - d \<ge> n" "uint (s' !! (k - d)) < bound y"
        by (simp_all add: d sdrop_snth)
      then show ?thesis by blast
    qed
    then show ?thesis by (simp add: keeps_accepting_def env')
  qed
qed

lemma getSecureRandomInt_returns:
  assumes "keeps_accepting M env" and "mx \<le> M"
  shows "\<exists>v env'. getSecureRandomInt mx env = Some (v, env')"
proof (cases "source env")
  case (MathRandom s)
  then show ?thesis by (simp add: getSecureRandomInt_def Let_def)
next
  case (Crypto s)
  show ?thesis
  proof (cases "mx \<le> 0")
    case True
    then show ?thesis by (simp add: getSecureRandomInt_def)
  next
    case False
    then have "0 < mx" by simp
    from keeps_acceptingD [OF assms(1) Crypto this assms(2), of 0]
    obtain k where "uint (s !! k) < bound mx" by blast
    then obtain r where "rejection_loop (bound mx) mx s = Some r"
      using rejection_loop_returns by blast
    with False Crypto show ?thesis
      by (cases r) (simp add: getSecureRandomInt_def Let_def)
  qed
qed

subsection \<open>\<open>pickRandomChar\<close>\<close>

lemma pickRandomChar_SomeD:
  assumes "pickRandomChar str env = Some (c, env')"
  shows "call_log env' = call_log env @ [int (length str)]"
    and "str \<noteq> [] \<Longrightarrow> \<exists>x\<in>set str. c = [x]"
proof -
  from assms obtain k where k: "getSecureRandomInt (int (length str)) env = Some (k, env')"
    and c: "c = charAt str k"
    by (auto simp: pickRandomChar_def split: option.splits)
  from k show "call_log env' = call_log env @ [int (length str)]"
    by (rule getSecureRandomInt_log)
  assume "str \<noteq> []"
  then have "0 < int (length str)" by simp
  with k have "0 \<le> k \<and> k < int (length str)" by (rule getSecureRandomInt_range)
  then show "\<exists>x\<in>set str. c = [x]" by (auto simp: c charAt_def)
qed

lemma pickRandomChar_keeps:
  "pickRandomChar str env = Some (c, env') \<Longrightarrow> keeps_accepting M env \<Longrightarrow> keeps_accepting M env'"
  by (auto simp: pickRandomChar_def split: option.splits dest: getSecureRandomInt_keeps)

lemma pickRandomChar_returns:
  assumes "keeps_accepting M env" and "int (length str) \<le> M"
  shows "\<exists>c env'. pickRandomChar str env = Some (c, env')"
  using getSecureRandomInt_returns [OF assms] by (auto simp: pickRandomChar_def)

subsection \<open>\<open>shuffleArray\<close>\<close>

lemma mset_swap_assign:
  assumes "0 \<le> i" "i < int (length xs)" "0 \<le> j" "j < int (length xs)"
  shows "mset (swap_assign i j xs) = mset xs"
proof -
  from assms have "nat i < length xs" "nat j < length xs" by simp_all
  then show ?thesis by (simp add: swap_assign_def mset_swap)
qed

lemma length_swap_assign: "length (swap_assign i j xs) = length xs"
  by (simp add: swap_assign_def)

lemma shuffle_loop_SomeD:
  assumes "shuffle_loop i array env = Some (array', env')" and "i < int (length array)"
  shows "mset array' = mset array \<and> call_log env' = call_log env @ map int (rev [2..<nat i + 2])"
  using assms
proof (induction i array env rule: shuffle_loop.induct)
  case (1 i array env)
  show ?case
  proof (cases "0 < i")
    case False
    with "1.prems" show ?thesis by (simp add: shuffle_loop.simps)
  next
    case True
    with "1.prems"(1) obtain j env1 where
      j: "getSecureRandomInt (i + 1) env = Some (j, env1)" and
      rec: "shuffle_loop (i - 1) (swap_assign i j array) env1 = Some (array', env')"
      by (subst (asm) shuffle_loop.simps) (auto split: option.splits)
    from j True have jr: "0 \<le> j \<and> j < i + 1" by (intro getSecureRandomInt_range) simp_all
    from "1.prems"(2) have "i - 1 < int (length (swap_assign i j array))"
      by (simp add: length_swap_assign)
    from "1.IH" [OF True j refl rec this]
    have ih: "mset array' = mset (swap_assign i j array)"
      "call_log env' = call_log env1 @ map int (rev [2..<nat (i - 1) + 2])" by simp_all
    have "mset (swap_assign i j array) = mset array"
      using True jr "1.prems"(2) by (intro mset_swap_assign) simp_all
    moreover have "call_log env1 = call_log env @ [i + 1]"
      using j by (rule getSecureRandomInt_log)
    moreover have "[2..<nat i + 2] = [2..<nat (i - 1) + 2] @ [nat i + 1]"
      using True by (simp add: nat_diff_distrib flip: upt_Suc_append)
    ultimately show ?thesis using ih True by simp
  qed
qed

lemma shuffle_loop_keeps:
  "shuffle_loop i array env = Some (array', env') \<Longrightarrow> keeps_accepting M env \<Longrightarrow>
   keeps_accepting M env'"
proof (induction i array env rule: shuffle_loop.induct)
  case (1 i array env)
  show ?case
  proof (cases "0 < i")
    case False
    with "1.prems" show ?thesis by (simp add: shuffle_loop.simps)
  next
    case True
    with "1.prems"(1) obtain j env1 where
      j: "getSecureRandomInt (i + 1) env = Some (j, env1)" and
      rec: "shuffle_loop (i - 1) (swap_assign i j array) env1 = Some (array', env')"
      by (subst (asm) shuffle_loop.simps) (auto split: option.splits)
    from j "1.prems"(2) have "keeps_accepting M env1" by (rule getSecureRandomInt_keeps)
    from "1.IH" [OF True j refl rec this] show ?thesis .
  qed
qed

lemma shuffle_loop_returns:
  "keeps_accepting M env \<Longrightarrow> i + 1 \<le> M \<Longrightarrow> \<exists>r. shuffle_loop i array env = Some r"
proof (induction i array env rule: shuffle_loop.induct)
  case (1 i array env)
  show ?case
  proof (cases "0 < i")
    case False
    then show ?thesis by (simp add: shuffle_loop.simps)
  next
    case True
    from getSecureRandomInt_returns [OF "1.prems"] obtain j env1 where
      j: "getSecureRandomInt (i + 1) env = Some (j, env1)" by blast
    from j "1.prems"(1) have "keeps_accepting M env1" by (rule getSecureRandomInt_keeps)
    from "1.IH" [OF True j refl this] "1.prems"(2)
    obtain r where "shuffle_loop (i - 1) (swap_assign i j array) env1 = Some r" by auto
    with True j show ?thesis by (subst shuffle_loop.simps) simp
  qed
qed

subsection \<open>Sources that keep accepting\<close>

lemma bound_pos: "0 < mx \<Longrightarrow> mx \<le> uint32Max \<Longrightarrow> 0 < bound mx"
proof -
  assume a: "0 < mx" "mx \<le> uint32Max"
  then have "0 < uint32Max div mx" by (simp add: pos_imp_zdiv_pos_iff)
  with a(1) show ?thesis by (simp add: bound_def)
qed

lemma keeps_accepting_sconst_0:
  "M \<le> uint32Max \<Longrightarrow> keeps_accepting M \<lparr>source = Crypto (sconst 0), call_log = l\<rparr>"
proof -
  assume M: "M \<le> uint32Max"
  have "\<exists>k\<ge>n. uint (sconst (0 :: 32 word) !! k) < bound mx" if "0 < mx \<and> mx \<le> M" for mx n
  proof (intro exI conjI)
    show "n \<le> n" by simp
    from that M have "0 < bound mx" by (intro bound_pos) simp_all
    then show "uint (sconst (0 :: 32 word) !! n) < bound mx" by simp
  qed
  then have "\<forall>mx. 0 < mx \<and> mx \<le> M \<longrightarrow> (\<forall>n. \<exists>k\<ge>n. uint (sconst (0 :: 32 word) !! k) < bound mx)"
    by (intro allI impI)
  then show ?thesis unfolding keeps_accepting_def by simp
qed

lemma keeps_accepting_MathRandom [simp]:
  "keeps_accepting M \<lparr>source = MathRandom s, call_log = l\<rparr>"
  by (simp add: keeps_accepting_def)

subsection \<open>The two loops that pick characters\<close>

lemma forEach_pick_SomeD:
  assumes "forEach_pick pools result env = Some (r, env')" and "[] \<notin> set pools"
  shows "\<exists>cs. r = result @ cs \<and> list_all2 (\<lambda>c p. \<exists>x\<in>set p. c = [x]) cs pools \<and>
              call_log env' = call_log env @ map (\<lambda>p. int (length p)) pools"
  using assms
proof (induction pools arbitrary: result env)
  case Nil
  then show ?case by simp
next
  case (Cons pool pools)
  from Cons.prems(1) obtain c env1 where
    c: "pickRandomChar pool env = Some (c, env1)" and
    rec: "forEach_pick pools (result @ [c]) env1 = Some (r, env')"
    by (auto split: option.splits)
  from Cons.prems(2) have ne: "pool \<noteq> []" and rest: "[] \<notin> set pools" by auto
  from Cons.IH [OF rec rest] obtain cs where cs: "r = (result @ [c]) @ cs"
    "list_all2 (\<lambda>c p. \<exists>x\<in>set p. c = [x]) cs pools"
    "call_log env' = call_log env1 @ map (\<lambda>p. int (length p)) pools" by blast
  from pickRandomChar_SomeD [OF c] ne have
    "call_log env1 = call_log env @ [int (length pool)]" "\<exists>x\<in>set pool. c = [x]" by simp_all
  with cs show ?case by (intro exI [of _ "c # cs"]) simp
qed

lemma forEach_pick_keeps:
  "forEach_pick pools result env = Some (r, env') \<Longrightarrow> keeps_accepting M env \<Longrightarrow>
   keeps_accepting M env'"
proof (induction pools arbitrary: result env)
  case Nil
  then show ?case by simp
next
  case (Cons pool pools)
  from Cons.prems(1) obtain c env1 where
    c: "pickRandomChar pool env = Some (c, env1)" and
    rec: "forEach_pick pools (result @ [c]) env1 = Some (r, env')"
    by (auto split: option.splits)
  from c Cons.prems(2) have "keeps_accepting M env1" by (rule pickRandomChar_keeps)
  with rec show ?case by (rule Cons.IH)
qed

lemma forEach_pick_returns:
  "keeps_accepting M env \<Longrightarrow> \<forall>p\<in>set pools. int (length p) \<le> M \<Longrightarrow>
   \<exists>r. forEach_pick pools result env = Some r"
proof (induction pools arbitrary: result env)
  case Nil
  then show ?case by simp
next
  case (Cons pool pools)
  from Cons.prems have "int (length pool) \<le> M" by simp
  from pickRandomChar_returns [OF Cons.prems(1) this] obtain c env1 where
    c: "pickRandomChar pool env = Some (c, env1)" by blast
  from c Cons.prems(1) have "keeps_accepting M env1" by (rule pickRandomChar_keeps)
  from Cons.IH [OF this, of "result @ [c]"] Cons.prems(2)
  obtain r where "forEach_pick pools (result @ [c]) env1 = Some r" by auto
  with c show ?case by simp
qed

lemma fill_loop_step:
  "i < len \<Longrightarrow> fill_loop i len combined result env =
     (case pickRandomChar combined env of
        None \<Rightarrow> None
      | Some (c, env') \<Rightarrow> fill_loop (i + 1) len combined (result @ [c]) env')"
  by (subst fill_loop.simps) simp

lemma fill_loop_done: "\<not> i < len \<Longrightarrow> fill_loop i len combined result env = Some (result, env)"
  by (subst fill_loop.simps) simp

lemma fill_loop_SomeD:
  assumes "fill_loop i len combined result env = Some (r, env')" and "combined \<noteq> []"
  shows "\<exists>cs. r = result @ cs \<and> length cs = nat (len - i) \<and>
              (\<forall>c\<in>set cs. \<exists>x\<in>set combined. c = [x]) \<and>
              call_log env' = call_log env @ replicate (nat (len - i)) (int (length combined))"
  using assms
proof (induction i len combined result env rule: fill_loop.induct)
  case (1 i len combined result env)
  show ?case
  proof (cases "i < len")
    case False
    with "1.prems" show ?thesis by (simp add: fill_loop_done)
  next
    case True
    with "1.prems"(1) obtain c env1 where
      c: "pickRandomChar combined env = Some (c, env1)" and
      rec: "fill_loop (i + 1) len combined (result @ [c]) env1 = Some (r, env')"
      by (auto simp: fill_loop_step split: option.splits)
    from "1.IH" [OF True c refl rec "1.prems"(2)] obtain cs where cs:
      "r = (result @ [c]) @ cs" "length cs = nat (len - (i + 1))"
      "\<forall>c\<in>set cs. \<exists>x\<in>set combined. c = [x]"
      "call_log env' = call_log env1 @ replicate (nat (len - (i + 1))) (int (length combined))"
      by blast
    from pickRandomChar_SomeD [OF c] "1.prems"(2) have c':
      "call_log env1 = call_log env @ [int (length combined)]" "\<exists>x\<in>set combined. c = [x]"
      by simp_all
    from True have n: "nat (len - i) = Suc (nat (len - (i + 1)))" by simp
    show ?thesis
    proof (intro exI [of _ "c # cs"] conjI)
      show "r = result @ c # cs" using cs(1) by simp
      show "length (c # cs) = nat (len - i)" using cs(2) n by simp
      show "\<forall>c\<in>set (c # cs). \<exists>x\<in>set combined. c = [x]" using cs(3) c'(2) by simp
      show "call_log env' = call_log env @ replicate (nat (len - i)) (int (length combined))"
        using cs(4) c'(1) by (simp add: n)
    qed
  qed
qed

lemma fill_loop_keeps:
  "fill_loop i len combined result env = Some (r, env') \<Longrightarrow> keeps_accepting M env \<Longrightarrow>
   keeps_accepting M env'"
proof (induction i len combined result env rule: fill_loop.induct)
  case (1 i len combined result env)
  show ?case
  proof (cases "i < len")
    case False
    with "1.prems" show ?thesis by (simp add: fill_loop_done)
  next
    case True
    with "1.prems"(1) obtain c env1 where
      c: "pickRandomChar combined env = Some (c, env1)" and
      rec: "fill_loop (i + 1) len combined (result @ [c]) env1 = Some (r, env')"
      by (auto simp: fill_loop_step split: option.splits)
    from c "1.prems"(2) have "keeps_accepting M env1" by (rule pickRandomChar_keeps)
    from "1.IH" [OF True c refl rec this] show ?thesis .
  qed
qed

lemma fill_loop_returns:
  "keeps_accepting M env \<Longrightarrow> int (length combined) \<le> M \<Longrightarrow>
   \<exists>r. fill_loop i len combined result env = Some r"
proof (induction i len combined result env rule: fill_loop.induct)
  case (1 i len combined result env)
  show ?case
  proof (cases "i < len")
    case False
    then show ?thesis by (simp add: fill_loop_done)
  next
    case True
    from pickRandomChar_returns [OF "1.prems"] obtain c env1 where
      c: "pickRandomChar combined env = Some (c, env1)" by blast
    from c "1.prems"(1) have "keeps_accepting M env1" by (rule pickRandomChar_keeps)
    from "1.IH" [OF True c refl this "1.prems"(2)]
    obtain r where "fill_loop (i + 1) len combined (result @ [c]) env1 = Some r" by blast
    with True c show ?thesis by (simp add: fill_loop_step)
  qed
qed

subsection \<open>\<open>generatePassword\<close> on a valid request\<close>

lemma selected_pools_nonempty: "[] \<notin> set (selected_pools opts)"
  by (simp add: selected_pools_def UPPER_def LOWER_def NUMBERS_def SYMBOLS_def)

lemma pool_length_le_concat: "p \<in> set pools \<Longrightarrow> length p \<le> length (concat pools)"
  by (induction pools) auto

lemma length_concat_singletons:
  "\<forall>c\<in>set cs. \<exists>x. c = [x] \<Longrightarrow> length (concat cs) = length cs"
  by (induction cs) auto

text \<open>The arguments of all calls of a run on a valid request, in call order.\<close>

lemma generatePassword_SomeD:
  assumes valid: "valid_request len opts"
    and run: "generatePassword len opts env = Some (r, env')"
  defines "pools \<equiv> selected_pools opts"
  shows "\<exists>guaranteed fill shuffled.
           r = Inr (concat shuffled) \<and>
           mset shuffled = mset (guaranteed @ fill) \<and>
           list_all2 (\<lambda>c p. \<exists>x\<in>set p. c = [x]) guaranteed pools \<and>
           length fill = nat (len - int (length pools)) \<and>
           (\<forall>c\<in>set fill. \<exists>x\<in>set (concat pools). c = [x]) \<and>
           call_log env' = call_log env @ map (\<lambda>p. int (length p)) pools @
             replicate (nat (len - int (length pools))) (int (length (concat pools))) @
             map int (rev [2..<nat len + 1])"
proof -
  from valid have ne: "pools \<noteq> []" and len: "int (length pools) \<le> len"
    by (simp_all add: valid_request_def pools_def)
  have nonempty: "[] \<notin> set pools" unfolding pools_def by (rule selected_pools_nonempty)
  with ne have comb: "concat pools \<noteq> []" by (cases pools) auto
  from run ne len obtain result env1 result' env2 shuffled where
    fe: "forEach_pick pools [] env = Some (result, env1)" and
    fl: "fill_loop (int (length result)) len (concat pools) result env1 = Some (result', env2)" and
    sh: "shuffleArray result' env2 = Some (shuffled, env')" and
    r: "r = Inr (concat shuffled)"
    by (auto simp: generatePassword_def Let_def pools_def [symmetric] split: option.splits)
  from forEach_pick_SomeD [OF fe nonempty] have
    g: "list_all2 (\<lambda>c p. \<exists>x\<in>set p. c = [x]) result pools" and
    log1: "call_log env1 = call_log env @ map (\<lambda>p. int (length p)) pools" by simp_all
  from g have lr: "length result = length pools" by (rule list_all2_lengthD)
  from fill_loop_SomeD [OF fl comb] lr obtain fill where
    fill: "result' = result @ fill" "length fill = nat (len - int (length pools))"
      "\<forall>c\<in>set fill. \<exists>x\<in>set (concat pools). c = [x]" and
    log2: "call_log env2 = call_log env1 @
      replicate (nat (len - int (length pools))) (int (length (concat pools)))"
    by auto
  have lr': "int (length result') = len" using fill(1,2) lr len by simp
  from sh have sl: "shuffle_loop (int (length result') - 1) result' env2 = Some (shuffled, env')"
    by (simp add: shuffleArray_def)
  from shuffle_loop_SomeD [OF sl] have
    perm: "mset shuffled = mset result'" and
    log3: "call_log env' = call_log env2 @ map int (rev [2..<nat (int (length result') - 1) + 2])"
    by simp_all
  from ne lr' lr have "0 < len" using len by (cases pools) auto
  then have "nat (len - 1) + 2 = nat len + 1" by simp
  with log3 lr' have log3': "call_log env' = call_log env2 @ map int (rev [2..<nat len + 1])"
    by simp
  show ?thesis
  proof (intro exI conjI)
    show "r = Inr (concat shuffled)" by (rule r)
    show "mset shuffled = mset (result @ fill)" using perm fill(1) by simp
    show "list_all2 (\<lambda>c p. \<exists>x\<in>set p. c = [x]) result pools" by (rule g)
    show "length fill = nat (len - int (length pools))" by (rule fill(2))
    show "\<forall>c\<in>set fill. \<exists>x\<in>set (concat pools). c = [x]" by (rule fill(3))
    show "call_log env' = call_log env @ map (\<lambda>p. int (length p)) pools @
             replicate (nat (len - int (length pools))) (int (length (concat pools))) @
             map int (rev [2..<nat len + 1])"
      using log1 log2 log3' by simp
  qed
qed

lemma generatePassword_returns:
  assumes valid: "valid_request len opts"
    and keeps: "keeps_accepting (max (int (length (concat (selected_pools opts)))) len) env"
  shows "\<exists>r env'. generatePassword len opts env = Some (r, env')"
proof -
  define pools where "pools = selected_pools opts"
  define M where "M = max (int (length (concat pools))) len"
  from valid have ne: "pools \<noteq> []" and len: "int (length pools) \<le> len"
    by (simp_all add: valid_request_def pools_def)
  have nonempty: "[] \<notin> set pools" unfolding pools_def by (rule selected_pools_nonempty)
  with ne have comb: "concat pools \<noteq> []" by (cases pools) auto
  from keeps have k0: "keeps_accepting M env" by (simp add: M_def pools_def)
  have "\<forall>p\<in>set pools. int (length p) \<le> M"
    using pool_length_le_concat [of _ pools] by (fastforce simp: M_def)
  from forEach_pick_returns [OF k0 this, of "[]"] obtain result env1 where
    fe: "forEach_pick pools [] env = Some (result, env1)" by auto
  from fe k0 have k1: "keeps_accepting M env1" by (rule forEach_pick_keeps)
  have "int (length (concat pools)) \<le> M" by (simp add: M_def)
  from fill_loop_returns [OF k1 this, of "int (length result)" len result]
  obtain result' env2 where
    fl: "fill_loop (int (length result)) len (concat pools) result env1 = Some (result', env2)"
    by auto
  from fl k1 have k2: "keeps_accepting M env2" by (rule fill_loop_keeps)
  from forEach_pick_SomeD [OF fe nonempty] have "length result = length pools"
    by (auto dest: list_all2_lengthD)
  with fill_loop_SomeD [OF fl comb] len have "int (length result') = len" by auto
  then have "int (length result') - 1 + 1 \<le> M" by (simp add: M_def)
  from shuffle_loop_returns [OF k2 this, of result'] obtain shuffled env3 where
    "shuffleArray result' env2 = Some (shuffled, env3)" by (auto simp: shuffleArray_def)
  with fe fl ne len show ?thesis
    by (simp add: generatePassword_def Let_def pools_def [symmetric])
qed

subsection \<open>Disjoint classes, and a stream that is never accepted\<close>

lemma classes_disjoint:
  "set UPPER \<inter> set LOWER = {}" "set UPPER \<inter> set NUMBERS = {}" "set UPPER \<inter> set SYMBOLS = {}"
  "set LOWER \<inter> set NUMBERS = {}" "set LOWER \<inter> set SYMBOLS = {}"
  "set NUMBERS \<inter> set SYMBOLS = {}"
  by (simp_all add: UPPER_def LOWER_def NUMBERS_def SYMBOLS_def)

lemma unselected_disjoint:
  assumes "q \<in> set [UPPER, LOWER, NUMBERS, SYMBOLS] - set (selected_pools opts)"
    and "p \<in> set (selected_pools opts)"
  shows "set p \<inter> set q = {}"
proof -
  from assms(2) have "p \<in> set [UPPER, LOWER, NUMBERS, SYMBOLS]"
    by (auto simp: selected_pools_def split: if_splits)
  moreover from assms have "p \<noteq> q" by auto
  ultimately show ?thesis using assms(1) classes_disjoint by auto
qed

lemma getSecureRandomInt_stuck:
  assumes "0 < mx"
  shows "getSecureRandomInt mx \<lparr>source = Crypto (sconst 0xffffffff), call_log = l\<rparr> = None"
proof -
  have "uint32Max div mx * mx \<le> uint32Max"
    using assms by (metis div_mult_mod_eq add_increasing2 pos_mod_sign order_refl)
  then have "\<not> uint (sconst (0xffffffff :: 32 word) !! n) < bound mx" for n
    by (simp add: bound_def uint32Max_def)
  then have "rejection_loop (bound mx) mx (sconst 0xffffffff) = None"
    by (rule rejection_loop_None)
  with assms show ?thesis by (simp add: getSecureRandomInt_def)
qed

subsection \<open>The threshold, and when a call returns\<close>

lemma bound_multiple:
  assumes "0 < mx"
  shows "bound mx mod mx = 0" "bound mx \<le> uint32Max" "uint32Max < bound mx + mx"
proof -
  show "bound mx mod mx = 0" by (simp add: bound_def)
  have eq: "uint32Max = bound mx + uint32Max mod mx"
    by (simp add: bound_def)
  from assms have "0 \<le> uint32Max mod mx" "uint32Max mod mx < mx" by simp_all
  with eq show "bound mx \<le> uint32Max" "uint32Max < bound mx + mx" by linarith+
qed

lemma bound_spec_bound:
  assumes "0 < mx"
  shows "bound mx = (if mx dvd 2 ^ 32 then spec_bound mx - mx else spec_bound mx)"
proof (cases "mx dvd (2 ^ 32 :: int)")
  case True
  then obtain q where q: "(2 ^ 32 :: int) = mx * q" by (rule dvdE)
  have "uint32Max = mx * (q - 1) + (mx - 1)"
    using q by (simp add: uint32Max_def algebra_simps)
  then have d1: "uint32Max div mx = q - 1"
    by (rule int_div_pos_eq) (use assms in simp_all)
  have d2: "(2 ^ 32 :: int) div mx = q"
  proof -
    have "(mx * q) div mx = q" using assms by simp
    then show ?thesis by (simp only: q)
  qed
  have "bound mx = (q - 1) * mx" by (simp only: bound_def d1)
  also have "\<dots> = q * mx - mx" by (simp add: algebra_simps)
  also have "q * mx = spec_bound mx" by (simp only: spec_bound_def d2)
  finally show ?thesis using True by simp
next
  case False
  define r where "r = (2 ^ 32 :: int) mod mx"
  define q where "q = (2 ^ 32 :: int) div mx"
  from False have "r \<noteq> 0" by (simp add: r_def mod_eq_0_iff_dvd)
  moreover from assms have "0 \<le> r" "r < mx" by (simp_all add: r_def)
  ultimately have r: "0 \<le> r - 1" "r - 1 < mx" by simp_all
  have "(2 ^ 32 :: int) = mx * q + r" by (simp add: q_def r_def)
  then have "uint32Max = mx * q + (r - 1)" by (simp add: uint32Max_def)
  then have "uint32Max div mx = q" using r by (rule int_div_pos_eq)
  with False show ?thesis by (simp add: bound_def spec_bound_def q_def)
qed

lemma getSecureRandomInt_Crypto_unfold:
  assumes "0 < mx"
  shows "getSecureRandomInt mx \<lparr>source = Crypto (w ## s), call_log = l\<rparr> =
           (if uint w < bound mx
            then Some (uint w mod mx, \<lparr>source = Crypto s, call_log = l @ [mx]\<rparr>)
            else getSecureRandomInt mx \<lparr>source = Crypto s, call_log = l\<rparr>)"
proof (cases "uint w < bound mx")
  case True
  with assms show ?thesis by (simp add: getSecureRandomInt_def rejection_loop_accept)
next
  case False
  then have "rejection_loop (bound mx) mx (w ## s) = rejection_loop (bound mx) mx s"
    by (simp add: rejection_loop_reject)
  with assms False show ?thesis
    by (simp add: getSecureRandomInt_def split: option.splits)
qed

lemma getSecureRandomInt_returns_iff:
  "(\<exists>v env'. getSecureRandomInt mx env = Some (v, env')) \<longleftrightarrow>
     mx \<le> 0 \<or> (case source env of MathRandom s \<Rightarrow> True
                | Crypto s \<Rightarrow> (\<exists>n. uint (s !! n) < bound mx))"
proof (cases "mx \<le> 0")
  case True
  then show ?thesis by (simp add: getSecureRandomInt_def)
next
  case False
  show ?thesis
  proof (cases "source env")
    case (MathRandom s)
    with False show ?thesis by (simp add: getSecureRandomInt_def)
  next
    case (Crypto s)
    have "(\<exists>r. rejection_loop (bound mx) mx s = Some r) \<longleftrightarrow> (\<exists>n. uint (s !! n) < bound mx)"
      using rejection_loop_SomeD [of "bound mx" mx s] rejection_loop_returns [of s _ "bound mx" mx]
      by blast
    with False Crypto show ?thesis
      by (auto simp: getSecureRandomInt_def split: option.splits)
  qed
qed

subsection \<open>The loop of \<open>shuffleArray\<close> against the reference shuffle\<close>

lemma shuffle_loop_step:
  "0 < i \<Longrightarrow> shuffle_loop i array env =
     (case getSecureRandomInt (i + 1) env of
        None \<Rightarrow> None
      | Some (j, env') \<Rightarrow> shuffle_loop (i - 1) (swap_assign i j array) env')"
  by (subst shuffle_loop.simps) simp

lemma shuffle_loop_done: "\<not> 0 < i \<Longrightarrow> shuffle_loop i array env = Some (array, env)"
  by (subst shuffle_loop.simps) simp

lemma swap_assign_transpose:
  assumes "0 \<le> i" "i < int (length xs)" "0 \<le> j" "j < int (length xs)"
  shows "swap_assign i j xs = spec_swap_positions (nat i) (nat j) xs"
proof (rule nth_equalityI)
  show "length (swap_assign i j xs) = length (spec_swap_positions (nat i) (nat j) xs)"
    by (simp add: swap_assign_def spec_swap_positions_def)
next
  fix k
  assume "k < length (swap_assign i j xs)"
  then have k: "k < length xs" by (simp add: swap_assign_def)
  from assms have ij: "nat i < length xs" "nat j < length xs" by simp_all
  show "swap_assign i j xs ! k = spec_swap_positions (nat i) (nat j) xs ! k"
    using k ij by (auto simp: swap_assign_def spec_swap_positions_def nth_list_update)
qed

lemma fisher_yates_step_None: "spec_fisher_yates_step i None = None"
  by (simp add: spec_fisher_yates_step_def)

lemma fisher_yates_step_Some:
  "spec_fisher_yates_step i (Some (xs, env)) =
     (case getSecureRandomInt (int i + 1) env of
        None \<Rightarrow> None
      | Some (j, env') \<Rightarrow> Some (spec_swap_positions i (nat j) xs, env'))"
  by (simp add: spec_fisher_yates_step_def)

lemma fold_fisher_yates_step_None: "fold spec_fisher_yates_step is None = None"
  by (induction "is") (simp_all add: fisher_yates_step_None)

lemma shuffle_loop_fold:
  "n < length xs \<Longrightarrow>
   shuffle_loop (int n) xs env = fold spec_fisher_yates_step (rev [1..<Suc n]) (Some (xs, env))"
proof (induction n arbitrary: xs env)
  case 0
  then show ?case by (simp add: shuffle_loop_done)
next
  case (Suc n)
  have idx: "rev [1..<Suc (Suc n)] = Suc n # rev [1..<Suc n]" by simp
  show ?case
  proof (cases "getSecureRandomInt (int (Suc n) + 1) env")
    case None
    then show ?thesis
      unfolding idx
      by (simp add: shuffle_loop_step fisher_yates_step_Some fold_fisher_yates_step_None
          del: upt_Suc)
  next
    case (Some a)
    obtain j env' where a: "a = (j, env')" by (cases a)
    from Some a have "0 \<le> j \<and> j < int (Suc n) + 1" by (intro getSecureRandomInt_range) simp_all
    moreover have "nat (int (Suc n)) = Suc n" by (rule nat_int)
    ultimately have sw:
      "swap_assign (int (Suc n)) j xs = spec_swap_positions (Suc n) (nat j) xs"
      using Suc.prems swap_assign_transpose [of "int (Suc n)" xs j] by (simp del: of_nat_Suc)
    from Suc.prems have "n < length (spec_swap_positions (Suc n) (nat j) xs)"
      by (simp add: spec_swap_positions_def)
    from Suc.IH [OF this] Some a sw show ?thesis
      unfolding idx
      by (simp add: shuffle_loop_step fisher_yates_step_Some del: upt_Suc)
  qed
qed

subsection \<open>Every function of the script is replayable\<close>

lemma rest_0 [simp]: "rest 0 a = a"
  by (cases a) simp_all

lemma rest_add: "rest m (rest n a) = rest (n + m) a"
  by (cases a) (simp_all add: sdrop_add)

lemma drawn_add:
  "drawn (n + m) a = drawn (n + m) b \<longleftrightarrow>
     drawn n a = drawn n b \<and> drawn m (rest n a) = drawn m (rest n b)"
  by (cases a; cases b) (auto simp flip: stake_add)

lemma replayableI:
  assumes "\<And>e r e'. f e = Some (r, e') \<Longrightarrow>
    \<exists>n. source e' = rest n (source e) \<and>
      (\<forall>e2. drawn n (source e2) = drawn n (source e) \<longrightarrow>
         (\<exists>e2'. f e2 = Some (r, e2') \<and> source e2' = rest n (source e2)))"
  shows "replayable f"
  using assms unfolding replayable_def by blast

lemma replayableD:
  assumes "replayable f" and "f e = Some (r, e')"
  obtains n where "source e' = rest n (source e)"
    and "\<And>e2. drawn n (source e2) = drawn n (source e) \<Longrightarrow>
           \<exists>e2'. f e2 = Some (r, e2') \<and> source e2' = rest n (source e2)"
  using assms unfolding replayable_def by blast

lemma replayable_return: "replayable (\<lambda>e. Some (x, e))"
proof (rule replayableI)
  fix e e' :: env and r
  assume "Some (x, e) = Some (r, e')"
  then have "source e' = rest 0 (source e) \<and>
      (\<forall>e2. drawn 0 (source e2) = drawn 0 (source e) \<longrightarrow>
         (\<exists>e2'. Some (x, e2) = Some (r, e2') \<and> source e2' = rest 0 (source e2)))"
    by simp
  then show "\<exists>n. source e' = rest n (source e) \<and>
      (\<forall>e2. drawn n (source e2) = drawn n (source e) \<longrightarrow>
         (\<exists>e2'. Some (x, e2) = Some (r, e2') \<and> source e2' = rest n (source e2)))" ..
qed

lemma replayable_bind:
  assumes f: "replayable f" and g: "\<And>x. replayable (g x)"
  shows "replayable (\<lambda>e. case f e of None \<Rightarrow> None | Some (x, e1) \<Rightarrow> g x e1)"
proof (rule replayableI)
  fix e r e'
  assume "(case f e of None \<Rightarrow> None | Some (x, e1) \<Rightarrow> g x e1) = Some (r, e')"
  then obtain x e1 where fe: "f e = Some (x, e1)" and ge: "g x e1 = Some (r, e')"
    by (auto split: option.splits)
  from replayableD [OF f fe] obtain n where
    n1: "source e1 = rest n (source e)" and
    n2: "\<And>e2. drawn n (source e2) = drawn n (source e) \<Longrightarrow>
           \<exists>e2'. f e2 = Some (x, e2') \<and> source e2' = rest n (source e2)"
    by blast
  from replayableD [OF g ge] obtain m where
    m1: "source e' = rest m (source e1)" and
    m2: "\<And>e2. drawn m (source e2) = drawn m (source e1) \<Longrightarrow>
           \<exists>e2'. g x e2 = Some (r, e2') \<and> source e2' = rest m (source e2)"
    by blast
  have "source e' = rest (n + m) (source e)" by (simp add: m1 n1 rest_add)
  moreover have "\<exists>e2'. (case f e2 of None \<Rightarrow> None | Some (x, e1) \<Rightarrow> g x e1) = Some (r, e2') \<and>
      source e2' = rest (n + m) (source e2)"
    if d: "drawn (n + m) (source e2) = drawn (n + m) (source e)" for e2
  proof -
    from d have d1: "drawn n (source e2) = drawn n (source e)"
      and d2: "drawn m (rest n (source e2)) = drawn m (rest n (source e))"
      by (simp_all add: drawn_add)
    from n2 [OF d1] obtain e2a where a: "f e2 = Some (x, e2a)" "source e2a = rest n (source e2)"
      by blast
    from d2 a(2) n1 have "drawn m (source e2a) = drawn m (source e1)" by simp
    from m2 [OF this] obtain e2' where "g x e2a = Some (r, e2')" "source e2' = rest m (source e2a)"
      by blast
    with a show ?thesis by (simp add: rest_add)
  qed
  ultimately show "\<exists>k. source e' = rest k (source e) \<and>
      (\<forall>e2. drawn k (source e2) = drawn k (source e) \<longrightarrow>
         (\<exists>e2'. (case f e2 of None \<Rightarrow> None | Some (x, e1) \<Rightarrow> g x e1) = Some (r, e2') \<and>
            source e2' = rest k (source e2)))"
    by blast
qed

lemma replayable_getSecureRandomInt: "replayable (getSecureRandomInt mx)"
proof (rule replayableI)
  fix e v e'
  assume run: "getSecureRandomInt mx e = Some (v, e')"
  show "\<exists>n. source e' = rest n (source e) \<and>
      (\<forall>e2. drawn n (source e2) = drawn n (source e) \<longrightarrow>
         (\<exists>e2'. getSecureRandomInt mx e2 = Some (v, e2') \<and> source e2' = rest n (source e2)))"
  proof (cases "mx \<le> 0")
    case True
    with run have "source e' = rest 0 (source e) \<and>
      (\<forall>e2. drawn 0 (source e2) = drawn 0 (source e) \<longrightarrow>
         (\<exists>e2'. getSecureRandomInt mx e2 = Some (v, e2') \<and> source e2' = rest 0 (source e2)))"
      by (auto simp: getSecureRandomInt_nonpos)
    then show ?thesis ..
  next
    case False
    show ?thesis
    proof (cases "source e")
      case (MathRandom s)
      with False run have v: "v = floor_random_times (shd s) mx"
        and e': "source e' = MathRandom (stl s)"
        by (auto simp: getSecureRandomInt_def)
      have "\<exists>e2'. getSecureRandomInt mx e2 = Some (v, e2') \<and> source e2' = rest 1 (source e2)"
        if "drawn 1 (source e2) = drawn 1 (source e)" for e2
      proof -
        from that MathRandom obtain t where t: "source e2 = MathRandom t" "shd t = shd s"
          by (cases "source e2") auto
        with False v show ?thesis by (simp add: getSecureRandomInt_def)
      qed
      moreover from e' MathRandom have "source e' = rest 1 (source e)" by simp
      ultimately show ?thesis by blast
    next
      case (Crypto s)
      with False run obtain s' where loop: "rejection_loop (bound mx) mx s = Some (v, s')"
        and e': "source e' = Crypto s'"
        by (auto simp: getSecureRandomInt_def split: option.splits)
      from rejection_loop_SomeD [OF loop] obtain n where
        n: "uint (s !! n) < bound mx" "\<forall>k<n. \<not> uint (s !! k) < bound mx"
           "v = uint (s !! n) mod mx" "s' = sdrop (Suc n) s" by auto
      have "\<exists>e2'. getSecureRandomInt mx e2 = Some (v, e2') \<and> source e2' = rest (Suc n) (source e2)"
        if "drawn (Suc n) (source e2) = drawn (Suc n) (source e)" for e2
      proof -
        from that Crypto obtain t where t: "source e2 = Crypto t"
          "stake (Suc n) t = stake (Suc n) s"
          by (cases "source e2") auto
        have same: "t !! k = s !! k" if "k < Suc n" for k
          using t(2) that by (metis stake_nth)
        with n have "uint (t !! n) < bound mx" "\<forall>k<n. \<not> uint (t !! k) < bound mx" by simp_all
        then have "rejection_loop (bound mx) mx t = Some (uint (t !! n) mod mx, sdrop (Suc n) t)"
          by (rule rejection_loop_first)
        with False t(1) n(3) same show ?thesis by (simp add: getSecureRandomInt_def)
      qed
      moreover from e' Crypto n(4) have "source e' = rest (Suc n) (source e)" by simp
      ultimately show ?thesis by blast
    qed
  qed
qed

lemma replayable_pickRandomChar: "replayable (pickRandomChar str)"
proof -
  have "pickRandomChar str =
    (\<lambda>e. case getSecureRandomInt (int (length str)) e of
            None \<Rightarrow> None | Some (k, e1) \<Rightarrow> (\<lambda>k e. Some (charAt str k, e)) k e1)"
    by (rule ext) (simp add: pickRandomChar_def)
  then show ?thesis
    by (simp only: replayable_bind [OF replayable_getSecureRandomInt replayable_return])
qed

lemma replayable_forEach_pick: "replayable (forEach_pick pools result)"
proof (induction pools arbitrary: result)
  case Nil
  have "forEach_pick [] result = (\<lambda>e. Some (result, e))" by (rule ext) simp
  then show ?case by (simp only: replayable_return)
next
  case (Cons pool pools)
  have "forEach_pick (pool # pools) result =
    (\<lambda>e. case pickRandomChar pool e of
            None \<Rightarrow> None | Some (c, e1) \<Rightarrow> (\<lambda>c. forEach_pick pools (result @ [c])) c e1)"
    by (rule ext) simp
  then show ?case
    by (simp only: replayable_bind [OF replayable_pickRandomChar Cons.IH])
qed

lemma replayable_fill_loop: "replayable (fill_loop i len combined result)"
proof (induction "nat (len - i)" arbitrary: i result)
  case 0
  then have "fill_loop i len combined result = (\<lambda>e. Some (result, e))"
    by (intro ext fill_loop_done) simp
  then show ?case by (simp only: replayable_return)
next
  case (Suc n)
  then have "i < len" and n: "n = nat (len - (i + 1))" by simp_all
  then have "fill_loop i len combined result =
    (\<lambda>e. case pickRandomChar combined e of
            None \<Rightarrow> None
          | Some (c, e1) \<Rightarrow> (\<lambda>c. fill_loop (i + 1) len combined (result @ [c])) c e1)"
    by (intro ext) (simp add: fill_loop_step)
  then show ?case
    by (simp only: replayable_bind [OF replayable_pickRandomChar Suc.hyps(1) [OF n]])
qed

lemma replayable_shuffle_loop: "replayable (shuffle_loop i array)"
proof (induction "nat i" arbitrary: i array)
  case 0
  then have "shuffle_loop i array = (\<lambda>e. Some (array, e))"
    by (intro ext shuffle_loop_done) simp
  then show ?case by (simp only: replayable_return)
next
  case (Suc n)
  then have "0 < i" and n: "n = nat (i - 1)" by simp_all
  then have "shuffle_loop i array =
    (\<lambda>e. case getSecureRandomInt (i + 1) e of
            None \<Rightarrow> None
          | Some (j, e1) \<Rightarrow> (\<lambda>j. shuffle_loop (i - 1) (swap_assign i j array)) j e1)"
    by (intro ext) (simp add: shuffle_loop_step)
  then show ?case
    by (simp only: replayable_bind [OF replayable_getSecureRandomInt Suc.hyps(1) [OF n]])
qed

lemma replayable_generatePassword: "replayable (generatePassword len opts)"
proof -
  define pools where "pools = selected_pools opts"
  show ?thesis
  proof (cases "pools = [] \<or> len < int (length pools)")
    case True
    then have "generatePassword len opts =
      (\<lambda>e. Some (if pools = [] then Inr [] else Inl LengthTooShort, e))"
      by (intro ext) (auto simp: generatePassword_def pools_def)
    then show ?thesis by (simp only: replayable_return)
  next
    case False
    then have "generatePassword len opts =
      (\<lambda>e. case forEach_pick pools [] e of
              None \<Rightarrow> None
            | Some (result, e1) \<Rightarrow>
                (\<lambda>result e1.
                   case fill_loop (int (length result)) len (concat pools) result e1 of
                     None \<Rightarrow> None
                   | Some (result', e2) \<Rightarrow>
                       (\<lambda>result' e2.
                          case shuffle_loop (int (length result') - 1) result' e2 of
                            None \<Rightarrow> None
                          | Some (shuffled, e3) \<Rightarrow>
                              (\<lambda>shuffled e3. Some (Inr (concat shuffled), e3)) shuffled e3)
                       result' e2)
                result e1)"
      by (intro ext)
        (simp add: generatePassword_def Let_def pools_def shuffleArray_def
           split: option.splits)
    then show ?thesis
      by (simp only: replayable_bind [OF replayable_forEach_pick
            replayable_bind [OF replayable_fill_loop
              replayable_bind [OF replayable_shuffle_loop replayable_return]]])
  qed
qed

section \<open>The claims\<close>

text \<open>
  Claim C1, as amended. For every valid request, a run of \<open>generatePassword\<close> that
  returns yields a string of exactly \<open>length\<close> characters, all from the union of the
  selected classes, at least one from each selected class and none from an unselected
  class. The run returns on every source that keeps accepting for arguments up to the
  larger of \<open>length\<close> and the size of the union; the fallback source always does.
\<close>

theorem generatePassword_valid:
  assumes "valid_request len opts"
  shows "(keeps_accepting (max (int (length (concat (selected_pools opts)))) len) env \<longrightarrow>
           (\<exists>r env'. generatePassword len opts env = Some (r, env'))) \<and>
         (\<forall>r env'. generatePassword len opts env = Some (r, env') \<longrightarrow>
           (\<exists>pw. r = Inr pw \<and> int (length pw) = len \<and>
              set pw \<subseteq> set (concat (selected_pools opts)) \<and>
              (\<forall>p\<in>set (selected_pools opts). set pw \<inter> set p \<noteq> {}) \<and>
              (\<forall>q\<in>set [UPPER, LOWER, NUMBERS, SYMBOLS] - set (selected_pools opts).
                 set pw \<inter> set q = {})))"
proof (intro conjI allI impI)
  assume "keeps_accepting (max (int (length (concat (selected_pools opts)))) len) env"
  with assms show "\<exists>r env'. generatePassword len opts env = Some (r, env')"
    by (rule generatePassword_returns)
next
  fix r env'
  assume run: "generatePassword len opts env = Some (r, env')"
  define pools where "pools = selected_pools opts"
  from generatePassword_SomeD [OF assms run] obtain guaranteed fill shuffled where
    r: "r = Inr (concat shuffled)" and
    perm: "mset shuffled = mset (guaranteed @ fill)" and
    g: "list_all2 (\<lambda>c p. \<exists>x\<in>set p. c = [x]) guaranteed pools" and
    lf: "length fill = nat (len - int (length pools))" and
    f: "\<forall>c\<in>set fill. \<exists>x\<in>set (concat pools). c = [x]"
    unfolding pools_def by blast
  from assms have len: "int (length pools) \<le> len" by (simp add: valid_request_def pools_def)
  from perm have sets: "set shuffled = set guaranteed \<union> set fill"
    by (metis mset_eq_setD set_append)
  from g have lg: "length guaranteed = length pools" by (rule list_all2_lengthD)
  have g1: "\<exists>p\<in>set pools. \<exists>x\<in>set p. c = [x]" if "c \<in> set guaranteed" for c
  proof -
    from that obtain i where i: "i < length guaranteed" "c = guaranteed ! i"
      by (auto simp: in_set_conv_nth)
    with g have "\<exists>x\<in>set (pools ! i). c = [x]" by (simp add: list_all2_conv_all_nth)
    moreover from i lg have "pools ! i \<in> set pools" by simp
    ultimately show ?thesis by blast
  qed
  have g2: "\<exists>c\<in>set guaranteed. \<exists>x\<in>set p. c = [x]" if "p \<in> set pools" for p
  proof -
    from that obtain i where i: "i < length pools" "p = pools ! i"
      by (auto simp: in_set_conv_nth)
    with g have "\<exists>x\<in>set p. guaranteed ! i = [x]" by (simp add: list_all2_conv_all_nth)
    moreover from i lg have "guaranteed ! i \<in> set guaranteed" by simp
    ultimately show ?thesis by blast
  qed
  have single: "\<forall>c\<in>set shuffled. \<exists>x. c = [x]"
    using sets g1 f by blast
  have "length (concat shuffled) = length shuffled"
    using single by (rule length_concat_singletons)
  also have "\<dots> = length guaranteed + length fill"
    using mset_eq_length [OF perm] by simp
  finally have L: "int (length (concat shuffled)) = len" using lg lf len by simp
  have sub: "set (concat shuffled) \<subseteq> set (concat pools)"
  proof
    fix x assume "x \<in> set (concat shuffled)"
    then obtain c where c: "c \<in> set shuffled" "x \<in> set c" by auto
    with sets g1 f obtain y where "c = [y]" "y \<in> set (concat pools)" by fastforce
    with c show "x \<in> set (concat pools)" by simp
  qed
  have cover: "set (concat shuffled) \<inter> set p \<noteq> {}" if "p \<in> set pools" for p
  proof -
    from g2 [OF that] obtain c x where cx: "c \<in> set guaranteed" "x \<in> set p" "c = [x]" by blast
    with sets have "c \<in> set shuffled" "x \<in> set c" by simp_all
    then have "x \<in> set (concat shuffled)" by auto
    with \<open>x \<in> set p\<close> show ?thesis by blast
  qed
  have excl: "set (concat shuffled) \<inter> set q = {}"
    if "q \<in> set [UPPER, LOWER, NUMBERS, SYMBOLS] - set pools" for q
  proof -
    have "set (concat pools) \<inter> set q = {}"
      using unselected_disjoint [of q opts] that by (auto simp: pools_def)
    with sub show ?thesis by blast
  qed
  show "\<exists>pw. r = Inr pw \<and> int (length pw) = len \<and>
              set pw \<subseteq> set (concat (selected_pools opts)) \<and>
              (\<forall>p\<in>set (selected_pools opts). set pw \<inter> set p \<noteq> {}) \<and>
              (\<forall>q\<in>set [UPPER, LOWER, NUMBERS, SYMBOLS] - set (selected_pools opts).
                 set pw \<inter> set q = {})"
    using r L sub cover excl unfolding pools_def by blast
qed

text \<open>
  Witness for C1: length 12 with uppercase, lowercase and digits selected, on the
  all-zero word stream.
\<close>

theorem generatePassword_valid_witness:
  "valid_request 12 \<lparr>upper = True, lower = True, numbers = True, symbols = False\<rparr> \<and>
   keeps_accepting
     (max (int (length (concat (selected_pools
        \<lparr>upper = True, lower = True, numbers = True, symbols = False\<rparr>)))) 12)
     \<lparr>source = Crypto (sconst 0), call_log = []\<rparr> \<and>
   (\<exists>pw env'.
      generatePassword 12 \<lparr>upper = True, lower = True, numbers = True, symbols = False\<rparr>
        \<lparr>source = Crypto (sconst 0), call_log = []\<rparr> = Some (Inr pw, env') \<and>
      int (length pw) = 12 \<and>
      set pw \<subseteq> set (UPPER @ LOWER @ NUMBERS) \<and>
      set pw \<inter> set UPPER \<noteq> {} \<and> set pw \<inter> set LOWER \<noteq> {} \<and>
      set pw \<inter> set NUMBERS \<noteq> {} \<and> set pw \<inter> set SYMBOLS = {})"
proof -
  let ?opts = "\<lparr>upper = True, lower = True, numbers = True, symbols = False\<rparr>"
  let ?env = "\<lparr>source = Crypto (sconst 0), call_log = []\<rparr>"
  have pools: "selected_pools ?opts = [UPPER, LOWER, NUMBERS]"
    by (simp add: selected_pools_def)
  have v: "valid_request 12 ?opts" by (simp add: valid_request_def pools)
  have k: "keeps_accepting (max (int (length (concat (selected_pools ?opts)))) 12) ?env"
    by (rule keeps_accepting_sconst_0)
      (simp add: pools UPPER_def LOWER_def NUMBERS_def uint32Max_def)
  note T = generatePassword_valid [OF v, of ?env]
  from T [THEN conjunct1, THEN mp, OF k] obtain r env' where
    run: "generatePassword 12 ?opts ?env = Some (r, env')" by (elim exE)
  from T [THEN conjunct2, THEN spec, THEN spec, THEN mp, OF run] obtain pw where
    pw: "r = Inr pw" "int (length pw) = 12" "set pw \<subseteq> set (concat (selected_pools ?opts))"
      "\<forall>p\<in>set (selected_pools ?opts). set pw \<inter> set p \<noteq> {}"
      "\<forall>q\<in>set [UPPER, LOWER, NUMBERS, SYMBOLS] - set (selected_pools ?opts). set pw \<inter> set q = {}"
    by (elim exE conjE)
  have "SYMBOLS \<notin> set [UPPER, LOWER, NUMBERS]"
    by (simp add: UPPER_def LOWER_def NUMBERS_def SYMBOLS_def)
  with pw(5) have s: "set pw \<inter> set SYMBOLS = {}" by (simp add: pools)
  from pw(4) have c: "set pw \<inter> set UPPER \<noteq> {}" "set pw \<inter> set LOWER \<noteq> {}"
    "set pw \<inter> set NUMBERS \<noteq> {}" by (simp_all add: pools)
  from pw(3) have sub: "set pw \<subseteq> set (UPPER @ LOWER @ NUMBERS)" by (simp add: pools)
  from run pw(1) have run': "generatePassword 12 ?opts ?env = Some (Inr pw, env')" by simp
  show ?thesis
    by (intro conjI exI) (rule v k run' pw(2) sub c s)+
qed

text \<open>
  Counterexample to C1 as stated, for every randomness stream: on the word stream that
  is constantly \<open>0xffffffff\<close> no word is ever below the threshold, and the run of a
  valid request never returns.
\<close>

theorem generatePassword_valid_counterexample:
  "valid_request 1 \<lparr>upper = True, lower = False, numbers = False, symbols = False\<rparr> \<and>
   generatePassword 1 \<lparr>upper = True, lower = False, numbers = False, symbols = False\<rparr>
     \<lparr>source = Crypto (sconst 0xffffffff), call_log = []\<rparr> = None"
proof -
  have "pickRandomChar UPPER \<lparr>source = Crypto (sconst 0xffffffff), call_log = []\<rparr> = None"
    by (simp add: pickRandomChar_def getSecureRandomInt_stuck UPPER_def)
  then show ?thesis
    by (simp add: valid_request_def generatePassword_def selected_pools_def)
qed

text \<open>
  Claim C2, as amended. When no character class is selected, \<open>generatePassword\<close>
  returns the empty string for every \<open>length\<close>; it throws nothing and leaves the
  environment as it was.
\<close>

theorem generatePassword_empty_selection:
  assumes "\<not> upper opts" "\<not> lower opts" "\<not> numbers opts" "\<not> symbols opts"
  shows "generatePassword len opts env = Some (Inr [], env)"
  using assms by (simp add: generatePassword_def selected_pools_def)

text \<open>
  Witness for C2: length 0 on a fallback source.
\<close>

theorem generatePassword_empty_selection_witness:
  "\<not> upper \<lparr>upper = False, lower = False, numbers = False, symbols = False\<rparr> \<and>
   \<not> lower \<lparr>upper = False, lower = False, numbers = False, symbols = False\<rparr> \<and>
   \<not> numbers \<lparr>upper = False, lower = False, numbers = False, symbols = False\<rparr> \<and>
   \<not> symbols \<lparr>upper = False, lower = False, numbers = False, symbols = False\<rparr> \<and>
   generatePassword 0 \<lparr>upper = False, lower = False, numbers = False, symbols = False\<rparr>
     \<lparr>source = MathRandom (sconst (0, 0)), call_log = []\<rparr> =
   Some (Inr [], \<lparr>source = MathRandom (sconst (0, 0)), call_log = []\<rparr>)"
  using generatePassword_empty_selection
    [of "\<lparr>upper = False, lower = False, numbers = False, symbols = False\<rparr>" 0
        "\<lparr>source = MathRandom (sconst (0, 0)), call_log = []\<rparr>"]
  by simp

text \<open>
  Counterexample to C2 as stated: with an empty selection and length 8 the run returns
  the empty string, not an error.
\<close>

theorem generatePassword_empty_selection_counterexample:
  "generatePassword 8 \<lparr>upper = False, lower = False, numbers = False, symbols = False\<rparr>
     \<lparr>source = Crypto (sconst 0), call_log = []\<rparr> =
   Some (Inr [], \<lparr>source = Crypto (sconst 0), call_log = []\<rparr>)"
  by (simp add: generatePassword_def selected_pools_def)

text \<open>
  Claim C3. When a class is selected and \<open>length\<close> is less than the number of
  selected classes, \<open>generatePassword\<close> throws its error and produces no password; the
  environment is as it was.
\<close>

theorem generatePassword_too_short:
  assumes "selected_pools opts \<noteq> []" and "len < int (length (selected_pools opts))"
  shows "generatePassword len opts env = Some (Inl LengthTooShort, env)"
  using assms by (simp add: generatePassword_def)

text \<open>
  Witness for C3: length 3 with all four classes selected.
\<close>

theorem generatePassword_too_short_witness:
  "selected_pools \<lparr>upper = True, lower = True, numbers = True, symbols = True\<rparr> \<noteq> [] \<and>
   3 < int (length (selected_pools \<lparr>upper = True, lower = True, numbers = True, symbols = True\<rparr>)) \<and>
   generatePassword 3 \<lparr>upper = True, lower = True, numbers = True, symbols = True\<rparr>
     \<lparr>source = Crypto (sconst 0), call_log = []\<rparr> =
   Some (Inl LengthTooShort, \<lparr>source = Crypto (sconst 0), call_log = []\<rparr>)"
proof -
  let ?opts = "\<lparr>upper = True, lower = True, numbers = True, symbols = True\<rparr>"
  have a: "selected_pools ?opts \<noteq> []" by (simp add: selected_pools_def)
  have b: "3 < int (length (selected_pools ?opts))" by (simp add: selected_pools_def)
  from generatePassword_too_short [OF a b] a b show ?thesis by blast
qed

text \<open>
  Claim C4. For every invalid request (no class selected, or \<open>length\<close> less than the
  number of selected classes) the run ends with the environment it started with: no
  value was drawn from the source, \<open>getSecureRandomInt\<close> was never called, and the
  outcome is the thrown error or the empty string.
\<close>

theorem generatePassword_invalid_draws_nothing:
  assumes "\<not> valid_request len opts"
  shows "generatePassword len opts env = Some (Inl LengthTooShort, env) \<or>
         generatePassword len opts env = Some (Inr [], env)"
proof (cases "selected_pools opts = []")
  case True
  then show ?thesis by (simp add: generatePassword_def)
next
  case False
  with assms have "len < int (length (selected_pools opts))"
    by (simp add: valid_request_def)
  with False show ?thesis by (simp add: generatePassword_def)
qed

text \<open>
  Witness for C4: length 2 with three classes selected.
\<close>

theorem generatePassword_invalid_draws_nothing_witness:
  "\<not> valid_request 2 \<lparr>upper = True, lower = True, numbers = True, symbols = False\<rparr> \<and>
   generatePassword 2 \<lparr>upper = True, lower = True, numbers = True, symbols = False\<rparr>
     \<lparr>source = Crypto (sconst 7), call_log = []\<rparr> =
   Some (Inl LengthTooShort, \<lparr>source = Crypto (sconst 7), call_log = []\<rparr>)"
proof -
  let ?opts = "\<lparr>upper = True, lower = True, numbers = True, symbols = False\<rparr>"
  let ?env = "\<lparr>source = Crypto (sconst 7), call_log = []\<rparr>"
  have a: "\<not> valid_request 2 ?opts" by (simp add: valid_request_def selected_pools_def)
  have b: "generatePassword 2 ?opts ?env \<noteq> Some (Inr [], ?env)"
    by (simp add: generatePassword_def selected_pools_def)
  from generatePassword_invalid_draws_nothing [OF a, of ?env] a b show ?thesis by blast
qed

text \<open>
  Claim C5, as amended. A call of \<open>getSecureRandomInt\<close> that returns yields an integer
  in \<open>[0, max)\<close> when \<open>max > 0\<close>, yields 0 when \<open>max = 1\<close>, and for \<open>max \<le> 0\<close>
  yields 0 without drawing. The call returns exactly when \<open>max \<le> 0\<close>, or the fallback
  path is taken, or the word stream holds a word below the threshold \<open>bound max\<close>.
\<close>

theorem getSecureRandomInt_result:
  "(\<forall>v env'. getSecureRandomInt mx env = Some (v, env') \<longrightarrow>
      (0 < mx \<longrightarrow> 0 \<le> v \<and> v < mx) \<and> (mx = 1 \<longrightarrow> v = 0) \<and>
      (mx \<le> 0 \<longrightarrow> v = 0 \<and> source env' = source env)) \<and>
   ((\<exists>v env'. getSecureRandomInt mx env = Some (v, env')) \<longleftrightarrow>
      mx \<le> 0 \<or> (case source env of MathRandom s \<Rightarrow> True
                 | Crypto s \<Rightarrow> (\<exists>n. uint (s !! n) < bound mx)))"
proof (intro conjI allI impI)
  fix v env'
  assume "getSecureRandomInt mx env = Some (v, env')" and "0 < mx"
  then show "0 \<le> v" "v < mx" using getSecureRandomInt_range by blast+
next
  fix v env'
  assume "getSecureRandomInt mx env = Some (v, env')" and "mx = 1"
  then show "v = 0" using getSecureRandomInt_range [of mx env v env'] by simp
next
  fix v env'
  assume "getSecureRandomInt mx env = Some (v, env')" and "mx \<le> 0"
  then show "v = 0" "source env' = source env"
    by (auto simp: getSecureRandomInt_nonpos)
next
  show "(\<exists>v env'. getSecureRandomInt mx env = Some (v, env')) \<longleftrightarrow>
      mx \<le> 0 \<or> (case source env of MathRandom s \<Rightarrow> True
                 | Crypto s \<Rightarrow> (\<exists>n. uint (s !! n) < bound mx))"
    by (rule getSecureRandomInt_returns_iff)
qed

text \<open>
  Witness for C5: \<open>max = 10\<close> on a word stream whose first word is rejected and whose
  second word is 25.
\<close>

theorem getSecureRandomInt_result_witness:
  "getSecureRandomInt 10 \<lparr>source = Crypto (0xffffffff ## 25 ## sconst 0), call_log = []\<rparr> =
     Some (5, \<lparr>source = Crypto (sconst 0), call_log = [10]\<rparr>) \<and>
   (0 :: int) < 10 \<and> (0 :: int) \<le> 5 \<and> (5 :: int) < 10"
proof -
  have run: "getSecureRandomInt 10 \<lparr>source = Crypto (0xffffffff ## 25 ## sconst 0), call_log = []\<rparr> =
     Some (5, \<lparr>source = Crypto (sconst 0), call_log = [10]\<rparr>)"
    by (simp add: getSecureRandomInt_Crypto_unfold bound_def uint32Max_def)
  note T = getSecureRandomInt_result [THEN conjunct1, THEN spec, THEN spec, THEN mp, OF run]
  have pos: "(0 :: int) < 10" by simp
  from T [THEN conjunct1, THEN mp, OF pos] run pos show ?thesis by simp
qed

text \<open>
  Counterexample to C5 as stated, for every \<open>max > 0\<close>: for \<open>max = 2 ^ 32\<close> the
  threshold is 0, no word is below it, and the call never returns.
\<close>

theorem getSecureRandomInt_result_counterexample:
  "(0 :: int) < 4294967296 \<and>
   getSecureRandomInt 4294967296 \<lparr>source = Crypto (sconst 0), call_log = []\<rparr> = None"
proof -
  have "bound 4294967296 = 0" by (simp add: bound_def uint32Max_def)
  then have "rejection_loop (bound 4294967296) 4294967296 (sconst 0) = None"
    by (intro rejection_loop_None) simp
  then show ?thesis by (simp add: getSecureRandomInt_def)
qed

text \<open>
  Claim C6, as amended. On the cryptographic path, for every \<open>max > 0\<close>, the threshold
  is the largest multiple of \<open>max\<close> not exceeding \<open>2 ^ 32 - 1\<close>; it is the specification's
  \<open>floor(2 ^ 32 / max) * max\<close> unless \<open>max\<close> divides \<open>2 ^ 32\<close>, where it is smaller by
  \<open>max\<close>. A drawn word is accepted, returning \<open>word mod max\<close>, exactly when it is
  strictly below the threshold; otherwise it is discarded and the next word is drawn.
\<close>

theorem getSecureRandomInt_threshold:
  assumes "0 < mx"
  shows "bound mx mod mx = 0 \<and> bound mx \<le> 2 ^ 32 - 1 \<and> 2 ^ 32 - 1 < bound mx + mx \<and>
         bound mx = (if mx dvd 2 ^ 32 then spec_bound mx - mx else spec_bound mx) \<and>
         getSecureRandomInt mx \<lparr>source = Crypto (w ## s), call_log = l\<rparr> =
           (if uint w < bound mx
            then Some (uint w mod mx, \<lparr>source = Crypto s, call_log = l @ [mx]\<rparr>)
            else getSecureRandomInt mx \<lparr>source = Crypto s, call_log = l\<rparr>)"
  using bound_multiple [OF assms] bound_spec_bound [OF assms]
    getSecureRandomInt_Crypto_unfold [OF assms, of w s l]
  by (simp add: uint32Max_def)

text \<open>
  Witness for C6: \<open>max = 10\<close>; the word equal to the threshold is rejected, the word
  just below it is accepted.
\<close>

theorem getSecureRandomInt_threshold_witness:
  "(0 :: int) < 10 \<and> bound 10 = 4294967290 \<and> spec_bound 10 = 4294967290 \<and>
   getSecureRandomInt 10 \<lparr>source = Crypto (4294967290 ## 4294967289 ## sconst 0), call_log = []\<rparr> =
     Some (9, \<lparr>source = Crypto (sconst 0), call_log = [10]\<rparr>)"
proof -
  have pos: "(0 :: int) < 10" by simp
  have b: "bound 10 = 4294967290" by (simp add: bound_def uint32Max_def)
  have sb: "spec_bound 10 = 4294967290" by (simp add: spec_bound_def)
  note T = getSecureRandomInt_threshold [OF pos]
  note U = T [THEN conjunct2, THEN conjunct2, THEN conjunct2, THEN conjunct2]
  have "getSecureRandomInt 10 \<lparr>source = Crypto (4294967290 ## 4294967289 ## sconst 0), call_log = []\<rparr> =
     getSecureRandomInt 10 \<lparr>source = Crypto (4294967289 ## sconst 0), call_log = []\<rparr>"
    by (subst U) (simp add: b)
  also have "\<dots> = Some (9, \<lparr>source = Crypto (sconst 0), call_log = [10]\<rparr>)"
    by (subst U) (simp add: b)
  finally show ?thesis using pos b sb by simp
qed

text \<open>
  Counterexample to C6 as stated: for \<open>max = 2\<close> the threshold is \<open>2 ^ 32 - 2\<close>, not
  \<open>2 ^ 32\<close>, and the word \<open>0xffffffff\<close>, which is below \<open>2 ^ 32\<close>, is rejected: the
  call returns 0 from the next word, not 1.
\<close>

theorem getSecureRandomInt_threshold_counterexample:
  "bound 2 = 4294967294 \<and> spec_bound 2 = 4294967296 \<and>
   uint (0xffffffff :: 32 word) < spec_bound 2 \<and>
   getSecureRandomInt 2 \<lparr>source = Crypto (0xffffffff ## sconst 0), call_log = []\<rparr> =
     Some (0, \<lparr>source = Crypto (sconst 0), call_log = [2]\<rparr>)"
proof -
  have "getSecureRandomInt 2 \<lparr>source = Crypto (0xffffffff ## 0 ## sconst 0), call_log = []\<rparr> =
     Some (0, \<lparr>source = Crypto (sconst 0), call_log = [2]\<rparr>)"
    by (simp add: getSecureRandomInt_Crypto_unfold bound_def uint32Max_def)
  moreover have "sconst (0 :: 32 word) = 0 ## sconst 0" by (subst siterate.ctr) simp
  ultimately show ?thesis by (simp add: bound_def spec_bound_def uint32Max_def)
qed

text \<open>
  Claim C7. For every valid request of length \<open>L\<close> with \<open>k\<close> selected classes, a run
  of \<open>generatePassword\<close> that returns has called \<open>getSecureRandomInt\<close> with exactly these
  arguments, in this order: the sizes of the \<open>k\<close> selected classes, then \<open>L - k\<close> times
  the size of the union, then \<open>L, L - 1, \<dots>, 2\<close> for the shuffle; that is \<open>L\<close>
  character draws followed by \<open>L - 1\<close> shuffle draws, \<open>2 L - 1\<close> calls. The run returns
  whenever the source keeps accepting.
\<close>

theorem generatePassword_calls:
  assumes "valid_request len opts"
  shows "(keeps_accepting (max (int (length (concat (selected_pools opts)))) len) env \<longrightarrow>
           (\<exists>r env'. generatePassword len opts env = Some (r, env'))) \<and>
         (\<forall>r env'. generatePassword len opts env = Some (r, env') \<longrightarrow>
            call_log env' = call_log env @
              map (\<lambda>p. int (length p)) (selected_pools opts) @
              replicate (nat (len - int (length (selected_pools opts))))
                (int (length (concat (selected_pools opts)))) @
              map int (rev [2..<nat len + 1]) \<and>
            int (length (call_log env')) = int (length (call_log env)) + (2 * len - 1))"
proof (intro conjI allI impI)
  assume "keeps_accepting (max (int (length (concat (selected_pools opts)))) len) env"
  with assms show "\<exists>r env'. generatePassword len opts env = Some (r, env')"
    by (rule generatePassword_returns)
next
  fix r env'
  assume run: "generatePassword len opts env = Some (r, env')"
  from generatePassword_SomeD [OF assms run]
  show log: "call_log env' = call_log env @
              map (\<lambda>p. int (length p)) (selected_pools opts) @
              replicate (nat (len - int (length (selected_pools opts))))
                (int (length (concat (selected_pools opts)))) @
              map int (rev [2..<nat len + 1])"
    by blast
  from assms have "selected_pools opts \<noteq> []" "int (length (selected_pools opts)) \<le> len"
    by (simp_all add: valid_request_def)
  moreover from this have "0 < len" by (cases "selected_pools opts") auto
  moreover from this have "int (length [2..<nat len + 1]) = len - 1" by auto
  ultimately show "int (length (call_log env')) = int (length (call_log env)) + (2 * len - 1)"
    unfolding log by (simp del: length_upt)
qed

text \<open>
  Witness for C7: length 6 with all four classes on a fallback source: four guaranteed
  draws, two fill draws, five shuffle draws.
\<close>

theorem generatePassword_calls_witness:
  "valid_request 6 \<lparr>upper = True, lower = True, numbers = True, symbols = True\<rparr> \<and>
   (\<exists>r env'.
      generatePassword 6 \<lparr>upper = True, lower = True, numbers = True, symbols = True\<rparr>
        \<lparr>source = MathRandom (sconst (0, 0)), call_log = []\<rparr> = Some (r, env') \<and>
      call_log env' = [26, 26, 10, 29, 91, 91, 6, 5, 4, 3, 2] \<and>
      int (length (call_log env')) = 2 * 6 - 1)"
proof -
  let ?opts = "\<lparr>upper = True, lower = True, numbers = True, symbols = True\<rparr>"
  let ?env = "\<lparr>source = MathRandom (sconst (0, 0)), call_log = []\<rparr>"
  have pools: "selected_pools ?opts = [UPPER, LOWER, NUMBERS, SYMBOLS]"
    by (simp add: selected_pools_def)
  have v: "valid_request 6 ?opts" by (simp add: valid_request_def pools)
  have k: "keeps_accepting (max (int (length (concat (selected_pools ?opts)))) 6) ?env"
    by simp
  note T = generatePassword_calls [OF v, of ?env]
  from T [THEN conjunct1, THEN mp, OF k] obtain r env' where
    run: "generatePassword 6 ?opts ?env = Some (r, env')" by (elim exE)
  note L = T [THEN conjunct2, THEN spec, THEN spec, THEN mp, OF run]
  have up: "[2..<7] = [2, 3, 4, 5, 6 :: nat]" by (simp add: upt_rec)
  from L [THEN conjunct1] have l1: "call_log env' = [26, 26, 10, 29, 91, 91, 6, 5, 4, 3, 2]"
    by (simp add: pools UPPER_def LOWER_def NUMBERS_def SYMBOLS_def up numeral_eq_Suc)
  from L [THEN conjunct2] have l2: "int (length (call_log env')) = 2 * 6 - 1" by simp
  show ?thesis by (intro conjI exI) (rule v run l1 l2)+
qed

text \<open>
  Claim C8. \<open>generatePassword\<close> is a deterministic function of \<open>length\<close>, the
  selection and the values drawn. Two runs on the same source have the same outcome (the
  same password, the same error, or neither returns), whatever was logged before. More:
  a run that returns has drawn a finite number \<open>n\<close> of values, and every run on a source
  that starts with the same \<open>n\<close> values returns the same password after the same \<open>n\<close>
  draws.
\<close>

theorem generatePassword_deterministic:
  "(source env2 = source env1 \<longrightarrow>
      map_option fst (generatePassword len opts env2) =
      map_option fst (generatePassword len opts env1)) \<and>
   (\<forall>r env1'. generatePassword len opts env1 = Some (r, env1') \<longrightarrow>
      (\<exists>n. source env1' = rest n (source env1) \<and>
         (\<forall>env3. drawn n (source env3) = drawn n (source env1) \<longrightarrow>
            (\<exists>env3'. generatePassword len opts env3 = Some (r, env3') \<and>
               source env3' = rest n (source env3)))))"
proof (intro conjI allI impI)
  fix r env1'
  assume "generatePassword len opts env1 = Some (r, env1')"
  with replayable_generatePassword [of len opts]
  show "\<exists>n. source env1' = rest n (source env1) \<and>
         (\<forall>env3. drawn n (source env3) = drawn n (source env1) \<longrightarrow>
            (\<exists>env3'. generatePassword len opts env3 = Some (r, env3') \<and>
               source env3' = rest n (source env3)))"
    unfolding replayable_def by blast
next
  assume same: "source env2 = source env1"
  have one_way: "map_option fst (generatePassword len opts b) = Some r"
    if "generatePassword len opts a = Some (r, a')" "source b = source a" for a b :: env and r a'
  proof -
    from replayableD [OF replayable_generatePassword that(1)] obtain n where
      "\<And>e2. drawn n (source e2) = drawn n (source a) \<Longrightarrow>
           \<exists>e2'. generatePassword len opts e2 = Some (r, e2') \<and> source e2' = rest n (source e2)"
      by blast
    from this [of b] that(2) show ?thesis by auto
  qed
  show "map_option fst (generatePassword len opts env2) =
      map_option fst (generatePassword len opts env1)"
  proof (cases "generatePassword len opts env1")
    case (Some a)
    then obtain r e where "generatePassword len opts env1 = Some (r, e)" by (cases a) simp
    from one_way [OF this same] this show ?thesis by simp
  next
    case None
    show ?thesis
    proof (cases "generatePassword len opts env2")
      case (Some b)
      then obtain r e where "generatePassword len opts env2 = Some (r, e)" by (cases b) simp
      from one_way [OF this same [symmetric]] None show ?thesis by simp
    next
      case None2: None
      with None show ?thesis by simp
    qed
  qed
qed

text \<open>
  Witness for C8: length 1 with uppercase selected; the word 7 picks \<open>H\<close>.
\<close>

theorem generatePassword_deterministic_witness:
  "source \<lparr>source = Crypto (7 ## sconst 0), call_log = [5]\<rparr> =
     source \<lparr>source = Crypto (7 ## sconst 0), call_log = []\<rparr> \<and>
   generatePassword 1 \<lparr>upper = True, lower = False, numbers = False, symbols = False\<rparr>
     \<lparr>source = Crypto (7 ## sconst 0), call_log = []\<rparr> =
     Some (Inr ''H'', \<lparr>source = Crypto (sconst 0), call_log = [26]\<rparr>) \<and>
   map_option fst
     (generatePassword 1 \<lparr>upper = True, lower = False, numbers = False, symbols = False\<rparr>
        \<lparr>source = Crypto (7 ## sconst 0), call_log = [5]\<rparr>) = Some (Inr ''H'')"
proof -
  let ?opts = "\<lparr>upper = True, lower = False, numbers = False, symbols = False\<rparr>"
  let ?env1 = "\<lparr>source = Crypto (7 ## sconst 0), call_log = []\<rparr>"
  let ?env2 = "\<lparr>source = Crypto (7 ## sconst 0), call_log = [5]\<rparr>"
  have same: "source ?env2 = source ?env1" by simp
  have run: "generatePassword 1 ?opts ?env1 =
      Some (Inr ''H'', \<lparr>source = Crypto (sconst 0), call_log = [26]\<rparr>)"
    by (simp add: generatePassword_def selected_pools_def pickRandomChar_def
        getSecureRandomInt_Crypto_unfold bound_def uint32Max_def charAt_def UPPER_def
        fill_loop_done shuffleArray_def shuffle_loop_done)
  from generatePassword_deterministic [of ?env2 ?env1 1 ?opts, THEN conjunct1, THEN mp, OF same]
  have "map_option fst (generatePassword 1 ?opts ?env2) = Some (Inr ''H'')"
    by (simp only: run option.map fst_conv)
  with same run show ?thesis by (intro conjI)
qed

text \<open>
  Claim C9. \<open>shuffleArray\<close> is the reference Fisher--Yates shuffle over the same
  draws: from the last index down to index 1, one draw \<open>j = getSecureRandomInt(i + 1)\<close>
  per index and the exchange of positions \<open>i\<close> and \<open>j\<close>, nothing else. The two agree on
  the returned array, on the environment after the run, and on the runs that never
  return.
\<close>

theorem shuffleArray_fisher_yates: "shuffleArray array env = spec_fisher_yates array env"
proof (cases array)
  case Nil
  then show ?thesis by (simp add: shuffleArray_def spec_fisher_yates_def shuffle_loop_done)
next
  case (Cons x xs)
  then have "shuffle_loop (int (length xs)) array env =
    fold spec_fisher_yates_step (rev [1..<Suc (length xs)]) (Some (array, env))"
    by (intro shuffle_loop_fold) simp
  with Cons show ?thesis by (simp add: shuffleArray_def spec_fisher_yates_def del: upt_Suc)
qed

text \<open>
  Witness for C9: both shuffles of a three-element array on the same word stream.
\<close>

theorem shuffleArray_fisher_yates_witness:
  "shuffleArray ''abc'' \<lparr>source = Crypto (3 ## 4 ## sconst 0), call_log = []\<rparr> =
     Some (''bca'', \<lparr>source = Crypto (sconst 0), call_log = [3, 2]\<rparr>) \<and>
   spec_fisher_yates ''abc'' \<lparr>source = Crypto (3 ## 4 ## sconst 0), call_log = []\<rparr> =
     Some (''bca'', \<lparr>source = Crypto (sconst 0), call_log = [3, 2]\<rparr>)"
proof -
  have "shuffleArray ''abc'' \<lparr>source = Crypto (3 ## 4 ## sconst 0), call_log = []\<rparr> =
     Some (''bca'', \<lparr>source = Crypto (sconst 0), call_log = [3, 2]\<rparr>)"
    by (simp add: shuffleArray_def shuffle_loop_step shuffle_loop_done
        getSecureRandomInt_Crypto_unfold bound_def uint32Max_def swap_assign_def)
  with shuffleArray_fisher_yates [of "''abc''" "\<lparr>source = Crypto (3 ## 4 ## sconst 0), call_log = []\<rparr>"]
  show ?thesis by simp
qed

text \<open>
  Claim C10. For every input array and every source of randomness, an array that
  \<open>shuffleArray\<close> returns is a permutation of the input: it has the same multiset of
  elements and the same length. The call returns whenever the source keeps accepting for
  arguments up to the length of the array.
\<close>

theorem shuffleArray_permutation:
  "(\<forall>array' env'. shuffleArray array env = Some (array', env') \<longrightarrow>
      mset array' = mset array \<and> length array' = length array) \<and>
   (keeps_accepting (int (length array)) env \<longrightarrow>
      (\<exists>array' env'. shuffleArray array env = Some (array', env')))"
proof (intro conjI allI impI)
  fix array' env'
  assume "shuffleArray array env = Some (array', env')"
  then have m: "mset array' = mset array"
    using shuffle_loop_SomeD [of "int (length array) - 1" array env array' env']
    by (simp add: shuffleArray_def)
  then show "mset array' = mset array" .
  from m show "length array' = length array" by (rule mset_eq_length)
next
  assume "keeps_accepting (int (length array)) env"
  then have "\<exists>r. shuffle_loop (int (length array) - 1) array env = Some r"
    by (rule shuffle_loop_returns) simp
  then show "\<exists>array' env'. shuffleArray array env = Some (array', env')"
    by (auto simp: shuffleArray_def)
qed

text \<open>Witness for C10: a four-element array on the all-zero word stream.\<close>

theorem shuffleArray_permutation_witness:
  "keeps_accepting (int (length ''abcd'')) \<lparr>source = Crypto (sconst 0), call_log = []\<rparr> \<and>
   (\<exists>array' env'.
      shuffleArray ''abcd'' \<lparr>source = Crypto (sconst 0), call_log = []\<rparr> = Some (array', env') \<and>
      mset array' = mset ''abcd'' \<and> length array' = length ''abcd'')"
proof -
  have k: "keeps_accepting (int (length ''abcd'')) \<lparr>source = Crypto (sconst 0), call_log = []\<rparr>"
    by (rule keeps_accepting_sconst_0) (simp add: uint32Max_def)
  note T = shuffleArray_permutation [of "''abcd''" "\<lparr>source = Crypto (sconst 0), call_log = []\<rparr>"]
  from T [THEN conjunct2, THEN mp, OF k] obtain array' env' where
    r: "shuffleArray ''abcd'' \<lparr>source = Crypto (sconst 0), call_log = []\<rparr> = Some (array', env')"
    by (elim exE)
  note p = T [THEN conjunct1, THEN spec, THEN spec, THEN mp, OF r]
  show ?thesis
    by (rule conjI [OF k]) (rule exI, rule exI, rule conjI [OF r p])
qed

end
